theory Spec2Isabelle
  imports Complex_Main "HOL-Library.Multiset" "HOL-Library.Sublist" "HOL-Library.Product_Lexorder"
begin

section \<open>JavaScript strings\<close>

text \<open>
  A JavaScript string is a sequence of UTF-16 code units. A code unit is modelled as a
  natural number (below 65536); an ASCII literal of the source is written
  \<open>js ''...''\<close>.
\<close>

type_synonym jsstring = "nat list"

definition js :: "string \<Rightarrow> jsstring" where
  "js cs = map of_char cs"

datatype js_error = URIError | PlaybackError

text \<open>\<^verbatim>\<open>String.prototype.split(sep)\<close> for a one-character separator, and
  \<^verbatim>\<open>Array.prototype.join(sep)\<close>. Splitting never yields the empty array.\<close>

fun split :: "nat \<Rightarrow> jsstring \<Rightarrow> jsstring list" where
  "split sep [] = [[]]"
| "split sep (c # cs) =
     (if c = sep then [] # split sep cs
      else (case split sep cs of
              [] \<Rightarrow> [[c]]
            | seg # segs \<Rightarrow> (c # seg) # segs))"

fun join :: "nat \<Rightarrow> jsstring list \<Rightarrow> jsstring" where
  "join sep [] = []"
| "join sep [x] = x"
| "join sep (x # y # ys) = x @ sep # join sep (y # ys)"

subsection \<open>encodeURIComponent\<close>

text \<open>
  The built-in \<^verbatim>\<open>encodeURIComponent\<close> (ECMAScript \<open>Encode\<close> with the
  unreserved set \<^verbatim>\<open>A-Z a-z 0-9 - _ . ! ~ * ' ( )\<close>): an unreserved code unit is
  copied; any other code point is written as the percent-encoded octets of its UTF-8
  form; an unpaired surrogate raises \<^verbatim>\<open>URIError\<close>.
\<close>

definition uriUnescaped :: "nat \<Rightarrow> bool" where
  "uriUnescaped c \<longleftrightarrow>
     (65 \<le> c \<and> c \<le> 90) \<or> (97 \<le> c \<and> c \<le> 122) \<or> (48 \<le> c \<and> c \<le> 57) \<or>
     c \<in> {45, 95, 46, 33, 126, 42, 39, 40, 41}"

definition isLeadingSurrogate :: "nat \<Rightarrow> bool" where
  "isLeadingSurrogate c \<longleftrightarrow> 55296 \<le> c \<and> c \<le> 56319"

definition isTrailingSurrogate :: "nat \<Rightarrow> bool" where
  "isTrailingSurrogate c \<longleftrightarrow> 56320 \<le> c \<and> c \<le> 57343"

definition utf16SurrogatePairToCodePoint :: "nat \<Rightarrow> nat \<Rightarrow> nat" where
  "utf16SurrogatePairToCodePoint lead trail =
     (lead - 55296) * 1024 + (trail - 56320) + 65536"

definition utf8Octets :: "nat \<Rightarrow> nat list" where
  "utf8Octets cp =
     (if cp < 128 then [cp]
      else if cp < 2048 then [192 + cp div 64, 128 + cp mod 64]
      else if cp < 65536 then
        [224 + cp div 4096, 128 + (cp div 64) mod 64, 128 + cp mod 64]
      else
        [240 + cp div 262144, 128 + (cp div 4096) mod 64,
         128 + (cp div 64) mod 64, 128 + cp mod 64])"

definition hexDigit :: "nat \<Rightarrow> nat" where
  "hexDigit n = (if n < 10 then 48 + n else 55 + n)"

definition percentOctet :: "nat \<Rightarrow> jsstring" where
  "percentOctet b = [37, hexDigit (b div 16), hexDigit (b mod 16)]"

definition percentEncode :: "nat \<Rightarrow> jsstring" where
  "percentEncode cp = concat (map percentOctet (utf8Octets cp))"

fun encodeURIComponent :: "jsstring \<Rightarrow> js_error + jsstring" where
  "encodeURIComponent [] = Inr []"
| "encodeURIComponent (c # cs) =
     (if uriUnescaped c then
        (case encodeURIComponent cs of Inl e \<Rightarrow> Inl e | Inr r \<Rightarrow> Inr (c # r))
      else if isLeadingSurrogate c then
        (case cs of
           [] \<Rightarrow> Inl URIError
         | d # ds \<Rightarrow>
             if isTrailingSurrogate d then
               (case encodeURIComponent ds of
                  Inl e \<Rightarrow> Inl e
                | Inr r \<Rightarrow> Inr (percentEncode (utf16SurrogatePairToCodePoint c d) @ r))
             else Inl URIError)
      else if isTrailingSurrogate c then Inl URIError
      else
        (case encodeURIComponent cs of
           Inl e \<Rightarrow> Inl e
         | Inr r \<Rightarrow> Inr (percentEncode c @ r)))"

text \<open>\<^verbatim>\<open>segments.map(encodeURIComponent)\<close>: the first segment that raises aborts the
  whole map.\<close>

fun mapEncode :: "jsstring list \<Rightarrow> js_error + jsstring list" where
  "mapEncode [] = Inr []"
| "mapEncode (x # xs) =
     (case encodeURIComponent x of
        Inl e \<Rightarrow> Inl e
      | Inr y \<Rightarrow> (case mapEncode xs of Inl e \<Rightarrow> Inl e | Inr ys \<Rightarrow> Inr (y # ys)))"

text \<open>A string is well formed when it has no unpaired surrogate. Text decoded from
  UTF-8 (the dataset, read through \<^verbatim>\<open>Response.text()\<close>) is always well formed.\<close>

fun wellFormed :: "jsstring \<Rightarrow> bool" where
  "wellFormed [] = True"
| "wellFormed (c # cs) =
     (if isLeadingSurrogate c then
        (case cs of [] \<Rightarrow> False | d # ds \<Rightarrow> isTrailingSurrogate d \<and> wellFormed ds)
      else \<not> isTrailingSurrogate c \<and> wellFormed cs)"

section \<open>Audio Resource Resolver\<close>

definition AUDIO_DIR :: jsstring where
  "AUDIO_DIR = js ''Audio''"

definition AUDIO_EXT :: jsstring where
  "AUDIO_EXT = js ''m4a''"

text \<open>\<^verbatim>\<open>buildAudioUrl(language, sentenceText)\<close>, scripts.js lines 34-44.\<close>

definition audioPath :: "jsstring \<Rightarrow> jsstring \<Rightarrow> jsstring" where
  "audioPath language sentenceText =
     (let filename = sentenceText @ js ''.'' @ AUDIO_EXT
      in AUDIO_DIR @ js ''/'' @ language @ js ''/'' @ filename)"

definition buildAudioUrl :: "jsstring \<Rightarrow> jsstring \<Rightarrow> js_error + jsstring" where
  "buildAudioUrl language sentenceText =
     (case mapEncode (split 47 (audioPath language sentenceText)) of
        Inl e \<Rightarrow> Inl e
      | Inr segs \<Rightarrow> Inr (join 47 segs))"


section \<open>Dataset model\<close>

text \<open>\<^verbatim>\<open>String.prototype.trim()\<close>: strips the ECMAScript white space and line terminator
  code units from both ends.\<close>

definition isWhiteSpace :: "nat \<Rightarrow> bool" where
  "isWhiteSpace c \<longleftrightarrow>
     c \<in> {9, 10, 11, 12, 13, 32, 160, 5760, 8232, 8233, 8239, 8287, 12288, 65279} \<or>
     (8192 \<le> c \<and> c \<le> 8202)"

definition trim :: "jsstring \<Rightarrow> jsstring" where
  "trim s = rev (dropWhile isWhiteSpace (rev (dropWhile isWhiteSpace s)))"

subsection \<open>Number values\<close>

text \<open>
  A Number value is an IEEE 754 double: \<open>Num q\<close> is the finite double whose value is the
  rational \<open>q\<close> (\<open>Num 0\<close> is \<^verbatim>\<open>+0\<close>), \<open>NegZero\<close> is \<^verbatim>\<open>-0\<close>.
\<close>

datatype jsnum = NaN | NegInf | NegZero | Num rat | PosInf

definition pow2 :: "int \<Rightarrow> rat" where
  "pow2 e = 2 powi e"

text \<open>
  The Number value for a non-zero real (ECMAScript 6.1.6.1): the double nearest to it,
  ties to the even significand, \<^verbatim>\<open>Infinity\<close> from \<open>2^1024\<close> on, and a zero that keeps the
  sign. \<open>exponentOf q\<close> is \<open>\<lfloor>log\<^sub>2 q\<rfloor>\<close>; a double has 53 significant bits and its
  exponent is at least \<open>-1022\<close>.
\<close>

fun bitLength :: "nat \<Rightarrow> nat" where
  "bitLength n = (if n = 0 then 0 else Suc (bitLength (n div 2)))"

definition exponentOf :: "rat \<Rightarrow> int" where
  "exponentOf q =
     (if 1 \<le> q then int (bitLength (nat \<lfloor>q\<rfloor>)) - 1
      else - int (bitLength (nat (\<lceil>1 / q\<rceil> - 1))))"

definition roundTiesToEven :: "rat \<Rightarrow> int" where
  "roundTiesToEven x =
     (let n = \<lfloor>x\<rfloor>; f = x - of_int n
      in if f < 1 / 2 then n else if 1 / 2 < f then n + 1 else if even n then n else n + 1)"

definition roundPositive :: "rat \<Rightarrow> rat option" where
  "roundPositive q =
     (let e = max (exponentOf q) (- 1022);
          ulp = pow2 (e - 52);
          r = of_int (roundTiesToEven (q / ulp)) * ulp
      in if pow2 1024 \<le> r then None else Some r)"

definition numberValue :: "rat \<Rightarrow> jsnum" where
  "numberValue q =
     (if q = 0 then Num 0
      else if 0 < q then (case roundPositive q of None \<Rightarrow> PosInf | Some r \<Rightarrow> Num r)
      else (case roundPositive (- q) of
              None \<Rightarrow> NegInf
            | Some r \<Rightarrow> if r = 0 then NegZero else Num (- r)))"

text \<open>
  \<^verbatim>\<open>Number(s)\<close> for a string \<open>s\<close> (ECMAScript \<open>StringToNumber\<close>): white space is stripped
  from both ends; the empty string is \<^verbatim>\<open>+0\<close>; \<^verbatim>\<open>0x\<close>, \<^verbatim>\<open>0o\<close> and \<^verbatim>\<open>0b\<close> introduce an
  unsigned hexadecimal, octal or binary integer; otherwise the string is an optionally
  signed \<^verbatim>\<open>Infinity\<close> or decimal literal (digits, an optional fraction, an optional
  exponent); everything else is \<^verbatim>\<open>NaN\<close>. The mathematical value of the literal is rounded
  to the nearest double. (For a literal of more than 20 significant digits ECMAScript
  also allows the rounding of its truncation to 20 digits or of that plus one unit in the
  20th digit; the correctly rounded value is always one of the two.)
\<close>

definition isDigit :: "nat \<Rightarrow> bool" where
  "isDigit c \<longleftrightarrow> 48 \<le> c \<and> c \<le> 57"

definition isHexDigit :: "nat \<Rightarrow> bool" where
  "isHexDigit c \<longleftrightarrow> isDigit c \<or> (97 \<le> c \<and> c \<le> 102) \<or> (65 \<le> c \<and> c \<le> 70)"

definition digitValue :: "nat \<Rightarrow> nat" where
  "digitValue c = (if 97 \<le> c then c - 87 else if 65 \<le> c then c - 55 else c - 48)"

definition digitsMV :: "nat \<Rightarrow> jsstring \<Rightarrow> nat" where
  "digitsMV radix ds = foldl (\<lambda>acc d. radix * acc + digitValue d) 0 ds"

definition nonDecimalIntegerLiteral :: "jsstring \<Rightarrow> nat option" where
  "nonDecimalIntegerLiteral s =
     (case s of
        c0 # c1 # ds \<Rightarrow>
          if c0 = 48 \<and> ds \<noteq> [] then
            (if (c1 = 120 \<or> c1 = 88) \<and> list_all isHexDigit ds then Some (digitsMV 16 ds)
             else if (c1 = 111 \<or> c1 = 79) \<and> list_all (\<lambda>d. 48 \<le> d \<and> d \<le> 55) ds
               then Some (digitsMV 8 ds)
             else if (c1 = 98 \<or> c1 = 66) \<and> list_all (\<lambda>d. 48 \<le> d \<and> d \<le> 49) ds
               then Some (digitsMV 2 ds)
             else None)
          else None
      | _ \<Rightarrow> None)"

definition decimalDigits :: "jsstring \<Rightarrow> nat option" where
  "decimalDigits ds = (if ds \<noteq> [] \<and> list_all isDigit ds then Some (digitsMV 10 ds) else None)"

definition exponentPart :: "jsstring \<Rightarrow> int option" where
  "exponentPart s =
     (case s of
        [] \<Rightarrow> Some 0
      | c # t \<Rightarrow>
          if c = 101 \<or> c = 69 then
            (case t of
               [] \<Rightarrow> None
             | d # u \<Rightarrow>
                 if d = 43 then map_option int (decimalDigits u)
                 else if d = 45 then map_option (\<lambda>n. - int n) (decimalDigits u)
                 else map_option int (decimalDigits t))
          else None)"

datatype mv = MVInfinity | MV rat

definition strUnsignedDecimalLiteral :: "jsstring \<Rightarrow> mv option" where
  "strUnsignedDecimalLiteral s =
     (if s = js ''Infinity'' then Some MVInfinity
      else
        (let ip = takeWhile isDigit s;
             r1 = dropWhile isDigit s;
             dot = (r1 \<noteq> [] \<and> hd r1 = 46);
             fp = (if dot then takeWhile isDigit (tl r1) else []);
             r2 = (if dot then dropWhile isDigit (tl r1) else r1)
         in if ip = [] \<and> fp = [] then None
            else (case exponentPart r2 of
                    None \<Rightarrow> None
                  | Some e \<Rightarrow>
                      Some (MV ((of_nat (digitsMV 10 ip) +
                                 of_nat (digitsMV 10 fp) / 10 ^ length fp) * 10 powi e)))))"

definition jsNumber :: "jsstring \<Rightarrow> jsnum" where
  "jsNumber s =
     (let t = trim s
      in if t = [] then Num 0
         else (case nonDecimalIntegerLiteral t of
                 Some n \<Rightarrow> numberValue (of_nat n)
               | None \<Rightarrow>
                   (let neg = (hd t = 45);
                        u = (if hd t = 43 \<or> hd t = 45 then tl t else t)
                    in case strUnsignedDecimalLiteral u of
                         None \<Rightarrow> NaN
                       | Some MVInfinity \<Rightarrow> if neg then NegInf else PosInf
                       | Some (MV q) \<Rightarrow>
                           if q = 0 then (if neg then NegZero else Num 0)
                           else numberValue (if neg then - q else q))))"

text \<open>
  The subtraction \<^verbatim>\<open>x - y\<close> of two Number values: the exact difference, rounded. A
  difference of zero is \<^verbatim>\<open>+0\<close>, except that \<^verbatim>\<open>-0 - +0\<close> is \<^verbatim>\<open>-0\<close>.
\<close>

definition valueOf :: "jsnum \<Rightarrow> rat" where
  "valueOf x = (case x of Num q \<Rightarrow> q | _ \<Rightarrow> 0)"

definition jsSub :: "jsnum \<Rightarrow> jsnum \<Rightarrow> jsnum" where
  "jsSub x y =
     (if x = NaN \<or> y = NaN then NaN
      else if x = PosInf then (if y = PosInf then NaN else PosInf)
      else if x = NegInf then (if y = NegInf then NaN else NegInf)
      else if y = PosInf then NegInf
      else if y = NegInf then PosInf
      else if valueOf x = valueOf y then (if x = NegZero \<and> y = Num 0 then NegZero else Num 0)
      else numberValue (valueOf x - valueOf y))"

text \<open>\<^verbatim>\<open>v > 0\<close> for a Number value.\<close>

definition isPositive :: "jsnum \<Rightarrow> bool" where
  "isPositive v = (case v of PosInf \<Rightarrow> True | Num q \<Rightarrow> 0 < q | _ \<Rightarrow> False)"

text \<open>
  \<^verbatim>\<open>Array.prototype.sort(comparefn)\<close>. ECMAScript reads a comparator result \<open>v\<close> as
  "the first argument goes after the second" when \<open>v > 0\<close> (a \<^verbatim>\<open>NaN\<close> result counts as
  \<^verbatim>\<open>+0\<close>), requires the sort to be stable, and fixes the result whenever the comparator
  is a consistent ordering of the elements; for an inconsistent comparator the order is
  left to the implementation. The model is the stable insertion sort, which is the
  required result in the first case and one admissible result in the second.
\<close>

fun insertBy :: "('a \<Rightarrow> 'a \<Rightarrow> jsnum) \<Rightarrow> 'a \<Rightarrow> 'a list \<Rightarrow> 'a list" where
  "insertBy comparefn x [] = [x]"
| "insertBy comparefn x (y # ys) =
     (if isPositive (comparefn x y) then y # insertBy comparefn x ys else x # y # ys)"

definition arraySort :: "('a \<Rightarrow> 'a \<Rightarrow> jsnum) \<Rightarrow> 'a list \<Rightarrow> 'a list" where
  "arraySort comparefn xs = foldr (insertBy comparefn) xs []"


record line =
  lineNo :: jsnum
  texts :: "(jsstring \<times> jsstring) list"

record lesson =
  lessonId :: jsstring
  cefr :: jsstring
  lines :: "line list"


datatype load_error = CsvNoRows | CsvNoLanguageColumns | TypeError









text \<open>\<^verbatim>\<open>lesson.lines.sort((x, y) => x.lineNo - y.lineNo)\<close>, line 496.\<close>

definition lineCompare :: "line \<Rightarrow> line \<Rightarrow> jsnum" where
  "lineCompare x y = jsSub (lineNo x) (lineNo y)"

definition sortLines :: "line list \<Rightarrow> line list" where
  "sortLines ls = arraySort lineCompare ls"




text \<open>\<^verbatim>\<open>lessonIds.map((id) => ...)\<close>, lines 494-498; a missing key makes
  \<^verbatim>\<open>lesson.lines\<close> a \<^verbatim>\<open>TypeError\<close>.\<close>

fun sortedLessons :: "(jsstring \<times> lesson) list \<Rightarrow> jsstring list \<Rightarrow> load_error + lesson list" where
  "sortedLessons byLesson [] = Inr []"
| "sortedLessons byLesson (k # ids) =
     (case map_of byLesson k of
        None \<Rightarrow> Inl TypeError
      | Some lesson \<Rightarrow>
          (case sortedLessons byLesson ids of
             Inl e \<Rightarrow> Inl e
           | Inr ls \<Rightarrow> Inr (lesson\<lparr>lines := sortLines (lines lesson)\<rparr> # ls)))"

definition falsy :: "jsstring option \<Rightarrow> bool" where
  "falsy v \<longleftrightarrow> v = None \<or> v = Some []"








section \<open>Playback state\<close>

text \<open>
  The program is single threaded: between two \<^verbatim>\<open>await\<close>s a handler runs to completion.
  Every such piece of code is a function from state to state, and the browser's event loop
  is the list of events it delivers (\<open>event\<close>, \<open>step\<close>, \<open>exec\<close> below). Objects
  that the program compares by identity (audio elements, buttons) live in lists and are
  named by their index, the order of their creation.
\<close>

type_synonym target = "jsstring option"

text \<open>A registered \<^verbatim>\<open>ended\<close>/\<^verbatim>\<open>error\<close> listener pair: the one \<^verbatim>\<open>attachAudioButton\<close>
  wires once per audio object, or the \<^verbatim>\<open>onEnded\<close>/\<^verbatim>\<open>onError\<close> closures of one call of
  \<^verbatim>\<open>playOne\<close> (named by the run that made the call and its loop index).\<close>

datatype listener = Wired | PlayOneL nat nat

record audio_obj =
  paused :: bool
  currentTime :: nat
  missing :: bool
  wired :: bool
  listeners :: "listener list"

record button =
  is_playing :: bool
  textContent :: jsstring
  clickAudio :: "nat option"

record lesson_button =
  lb_is_playing :: bool
  lb_textContent :: jsstring
  lb_pass :: nat

text \<open>\<^verbatim>\<open>currentlyPlaying = { audio, btn }\<close> and
  \<^verbatim>\<open>lessonPlayback = { running, token, btn }\<close>.\<close>

record playing =
  audio :: "nat option"
  btn :: "nat option"

record lesson_playback =
  running :: bool
  token :: nat
  lessonBtn :: "nat option"

text \<open>
  One call of the play-lesson button's click handler that got as far as
  \<^verbatim>\<open>playLessonInOrder(urls, btns, token)\<close>: the arguments, the loop variable, and where the
  \<^verbatim>\<open>async\<close> function is suspended. \<open>Completed\<close> is a normal return, \<open>Aborted\<close> a
  rejected \<^verbatim>\<open>playOne\<close> that left the loop as an exception.
\<close>

datatype phase = AwaitingClip | Sleeping nat | Completed | Aborted

record run =
  urls :: "target list"
  btnsRef :: nat
  runToken :: nat
  idx :: nat
  phase :: phase
  callerBtn :: nat

text \<open>The closure of one pass of \<^verbatim>\<open>render\<close>: \<^verbatim>\<open>myToken\<close>, \<^verbatim>\<open>sentenceUrls\<close> and the
  array \<^verbatim>\<open>sentenceBtns\<close>, which the pass fills in later and hands to the sequencer.\<close>

record render_pass =
  myToken :: nat
  sentenceUrls :: "target list"
  sentenceBtns :: "nat option list"

text \<open>A promise returned by \<^verbatim>\<open>audio.play()\<close> that is not settled yet, with the code
  awaiting it: the sentence button's click handler, or a call of \<^verbatim>\<open>playOne\<close>.\<close>

datatype pending = ManualPlay nat | SeqPlay nat nat nat

text \<open>What a run did, in order. The history is written by the sequencer's functions and
  read by none: it is there to state the order of playback.\<close>

datatype obs = ClipStarted nat nat | ClipEnded nat nat | DelayElapsed nat nat nat

record state =
  currentlyPlaying :: playing
  audioCache :: "(target \<times> nat) list"
  audios :: "audio_obj list"
  lessonPlayback :: lesson_playback
  renderToken :: nat
  buttons :: "button list"
  lessonButtons :: "lesson_button list"
  passes :: "render_pass list"
  runs :: "run list"
  playPromises :: "pending list"
  history :: "obs list"

definition initial :: state where
  "initial =
     \<lparr>currentlyPlaying = \<lparr>audio = None, btn = None\<rparr>,
      audioCache = [], audios = [],
      lessonPlayback = \<lparr>running = False, token = 0, lessonBtn = None\<rparr>,
      renderToken = 0, buttons = [], lessonButtons = [], passes = [], runs = [],
      playPromises = [], history = []\<rparr>"

definition playSymbol :: jsstring where
  "playSymbol = [9654]"

definition pauseSymbol :: jsstring where
  "pauseSymbol = [9208]"

definition newAudio :: audio_obj where
  "newAudio = \<lparr>paused = True, currentTime = 0, missing = False, wired = False, listeners = []\<rparr>"

definition audioAt :: "state \<Rightarrow> nat \<Rightarrow> audio_obj" where
  "audioAt s a = (if a < length (audios s) then audios s ! a else newAudio)"

definition updAudio :: "nat \<Rightarrow> (audio_obj \<Rightarrow> audio_obj) \<Rightarrow> state \<Rightarrow> state" where
  "updAudio a f s = s\<lparr>audios := (audios s)[a := f (audioAt s a)]\<rparr>"

definition updButton :: "nat \<Rightarrow> (button \<Rightarrow> button) \<Rightarrow> state \<Rightarrow> state" where
  "updButton b f s = s\<lparr>buttons := (buttons s)[b := f (buttons s ! b)]\<rparr>"

definition updLessonButton :: "nat \<Rightarrow> (lesson_button \<Rightarrow> lesson_button) \<Rightarrow> state \<Rightarrow> state" where
  "updLessonButton b f s = s\<lparr>lessonButtons := (lessonButtons s)[b := f (lessonButtons s ! b)]\<rparr>"

definition updRun :: "nat \<Rightarrow> (run \<Rightarrow> run) \<Rightarrow> state \<Rightarrow> state" where
  "updRun rid f s = s\<lparr>runs := (runs s)[rid := f (runs s ! rid)]\<rparr>"

definition logObs :: "obs \<Rightarrow> state \<Rightarrow> state" where
  "logObs x s = s\<lparr>history := history s @ [x]\<rparr>"

subsection \<open>Single-clip player\<close>

text \<open>\<^verbatim>\<open>getOrCreateAudio(url)\<close>, lines 60-66: the cached object, or a new one.\<close>

definition getOrCreateAudio :: "target \<Rightarrow> state \<Rightarrow> nat \<times> state" where
  "getOrCreateAudio url s =
     (case map_of (audioCache s) url of
        Some a \<Rightarrow> (a, s)
      | None \<Rightarrow>
          (length (audios s),
           s\<lparr>audios := audios s @ [newAudio],
             audioCache := audioCache s @ [(url, length (audios s))]\<rparr>))"

text \<open>\<^verbatim>\<open>stopCurrentAudio()\<close>, lines 68-78.\<close>

definition stopCurrentAudio :: "state \<Rightarrow> state" where
  "stopCurrentAudio s =
     (let s1 = (case audio (currentlyPlaying s) of
                  None \<Rightarrow> s
                | Some a \<Rightarrow> updAudio a (\<lambda>x. x\<lparr>paused := True, currentTime := 0\<rparr>) s);
          s2 = (case btn (currentlyPlaying s1) of
                  None \<Rightarrow> s1
                | Some b \<Rightarrow>
                    updButton b (\<lambda>n. n\<lparr>is_playing := False, textContent := playSymbol\<rparr>) s1)
      in s2\<lparr>currentlyPlaying := \<lparr>audio = None, btn = None\<rparr>\<rparr>)"

text \<open>
  \<^verbatim>\<open>audio.play()\<close>: either playback starts (\<^verbatim>\<open>paused\<close> becomes false) and the promise
  settles later, or the element is left as it is and the promise will reject. Which of
  the two happens is the browser's choice, the argument \<open>started\<close>.
\<close>

definition audio_play :: "bool \<Rightarrow> nat \<Rightarrow> state \<Rightarrow> state" where
  "audio_play started a s = (if started then updAudio a (\<lambda>x. x\<lparr>paused := False\<rparr>) s else s)"

text \<open>\<^verbatim>\<open>stopLessonPlayback()\<close>, lines 140-150.\<close>

definition stopLessonPlayback :: "state \<Rightarrow> state" where
  "stopLessonPlayback s =
     (let s1 = s\<lparr>lessonPlayback :=
                   (lessonPlayback s)\<lparr>token := token (lessonPlayback s) + 1,
                                     running := False\<rparr>\<rparr>;
          s2 = stopCurrentAudio s1
      in case lessonBtn (lessonPlayback s2) of
           None \<Rightarrow> s2
         | Some b \<Rightarrow>
             updLessonButton b
               (\<lambda>n. n\<lparr>lb_textContent := js ''Play lesson'', lb_is_playing := False\<rparr>) s2)"

text \<open>
  \<^verbatim>\<open>attachAudioButton(playBtn, language, sentence)\<close>, lines 80-96, up to the registration
  of the click handler. \<open>url\<close> is \<^verbatim>\<open>buildAudioUrl(language, sentence)\<close>, the value
  \<^verbatim>\<open>render\<close> has stored in \<^verbatim>\<open>sentenceUrls\<close> for the same line.
\<close>

definition attachAudioButton :: "nat \<Rightarrow> jsstring \<Rightarrow> state \<Rightarrow> state" where
  "attachAudioButton playBtn url s =
     (let (a, s1) = getOrCreateAudio (Some url) s;
          s2 = (if \<not> wired (audioAt s1 a)
                then updAudio a (\<lambda>x. x\<lparr>listeners := listeners x @ [Wired], wired := True\<rparr>) s1
                else s1)
      in updButton playBtn (\<lambda>n. n\<lparr>clickAudio := Some a\<rparr>) s2)"

text \<open>The listeners wired by \<^verbatim>\<open>attachAudioButton\<close>, lines 86-93.\<close>

definition wiredEnded :: "nat \<Rightarrow> state \<Rightarrow> state" where
  "wiredEnded a s = (if audio (currentlyPlaying s) = Some a then stopCurrentAudio s else s)"

definition wiredError :: "nat \<Rightarrow> state \<Rightarrow> state" where
  "wiredError a s =
     (let s1 = updAudio a (\<lambda>x. x\<lparr>missing := True\<rparr>) s
      in if audio (currentlyPlaying s1) = Some a then stopCurrentAudio s1 else s1)"

text \<open>
  The click handler of a sentence button, lines 98-125: \<open>sentenceClickManual\<close> is
  lines 102-120, from the comparison with the current audio to the call of
  \<^verbatim>\<open>audio.play()\<close>, and \<open>sentenceClickCatch\<close> is the \<^verbatim>\<open>catch\<close> block, run when the
  awaited promise rejects.
\<close>

definition sentenceClickManual :: "nat \<Rightarrow> nat \<Rightarrow> bool \<Rightarrow> state \<Rightarrow> state" where
  "sentenceClickManual playBtn a started s1 =
     (let s2 = (if audio (currentlyPlaying s1) \<noteq> None \<and> audio (currentlyPlaying s1) \<noteq> Some a
                then stopCurrentAudio s1 else s1)
      in if audio (currentlyPlaying s2) = Some a \<and> \<not> paused (audioAt s2 a)
         then stopCurrentAudio s2
         else
           (let s3 = stopCurrentAudio s2;
                s4 = updButton playBtn
                       (\<lambda>n. n\<lparr>is_playing := True, textContent := pauseSymbol\<rparr>) s3;
                s5 = s4\<lparr>currentlyPlaying := \<lparr>audio = Some a, btn = Some playBtn\<rparr>\<rparr>;
                s6 = audio_play started a s5
            in s6\<lparr>playPromises := playPromises s6 @ [ManualPlay a]\<rparr>))"

definition sentenceClick :: "nat \<Rightarrow> nat \<Rightarrow> bool \<Rightarrow> state \<Rightarrow> state" where
  "sentenceClick playBtn a started s =
     (let s1 = (if running (lessonPlayback s) then stopLessonPlayback s else s)
      in sentenceClickManual playBtn a started s1)"

definition sentenceClickCatch :: "nat \<Rightarrow> state \<Rightarrow> state" where
  "sentenceClickCatch a s = stopCurrentAudio (updAudio a (\<lambda>x. x\<lparr>missing := True\<rparr>) s)"

subsection \<open>Lesson sequencer\<close>

text \<open>\<^verbatim>\<open>btns[i] || null\<close>: an index outside the array reads \<^verbatim>\<open>undefined\<close>.\<close>

definition btnAt :: "state \<Rightarrow> nat \<Rightarrow> nat \<Rightarrow> nat option" where
  "btnAt s ref i =
     (if ref < length (passes s) \<and> i < length (sentenceBtns (passes s ! ref))
      then sentenceBtns (passes s ! ref) ! i else None)"

text \<open>
  \<^verbatim>\<open>playOne(url, sentenceBtn)\<close>, lines 152-185, up to \<^verbatim>\<open>await audio.play()\<close>: the
  executor of the promise runs at once. \<open>rid\<close> and \<open>i\<close> name the call, that is the
  promise it returns and the closures \<^verbatim>\<open>onEnded\<close>, \<^verbatim>\<open>onError\<close>.
\<close>

definition playOne :: "nat \<Rightarrow> nat \<Rightarrow> target \<Rightarrow> nat option \<Rightarrow> bool \<Rightarrow> state \<Rightarrow> state" where
  "playOne rid i url sentenceBtn started s =
     (let (a, s1) = getOrCreateAudio url s;
          s2 = stopCurrentAudio s1;
          s3 = (case sentenceBtn of
                  None \<Rightarrow> s2
                | Some b \<Rightarrow>
                    updButton b (\<lambda>n. n\<lparr>is_playing := True, textContent := pauseSymbol\<rparr>) s2);
          s4 = s3\<lparr>currentlyPlaying := \<lparr>audio = Some a, btn = sentenceBtn\<rparr>\<rparr>;
          s5 = updAudio a (\<lambda>x. x\<lparr>currentTime := 0\<rparr>) s4;
          s6 = updAudio a (\<lambda>x. x\<lparr>listeners := listeners x @ [PlayOneL rid i]\<rparr>) s5;
          s7 = audio_play started a s6
      in logObs (ClipStarted rid i) (s7\<lparr>playPromises := playPromises s7 @ [SeqPlay rid i a]\<rparr>))"

text \<open>\<^verbatim>\<open>cleanup\<close>, lines 170-174, without the call of \<^verbatim>\<open>done\<close>.\<close>

definition cleanup :: "nat \<Rightarrow> nat \<Rightarrow> nat \<Rightarrow> state \<Rightarrow> state" where
  "cleanup rid i a s =
     updAudio a (\<lambda>x. x\<lparr>listeners := removeAll (PlayOneL rid i) (listeners x)\<rparr>) s"

text \<open>The promise of the call \<open>(rid, i)\<close> of \<^verbatim>\<open>playOne\<close> is pending exactly when run
  \<open>rid\<close> is suspended on it; resolving or rejecting a settled promise does nothing.\<close>

definition awaiting :: "nat \<Rightarrow> nat \<Rightarrow> state \<Rightarrow> bool" where
  "awaiting rid i s \<longleftrightarrow>
     rid < length (runs s) \<and> phase (runs s ! rid) = AwaitingClip \<and> idx (runs s ! rid) = i"

text \<open>
  The \<^verbatim>\<open>catch\<close> and \<^verbatim>\<open>finally\<close> blocks of the play-lesson click handler, lines 706-715,
  entered when the promise of \<^verbatim>\<open>playLessonInOrder\<close> settles as \<open>ph\<close>. They run in the
  same turn of the event loop as the code that settled the promise.
\<close>

definition lessonFinally :: "nat \<Rightarrow> state \<Rightarrow> state" where
  "lessonFinally rid s =
     (let r = runs s ! rid
      in if token (lessonPlayback s) = runToken r then
           (let s1 = s\<lparr>lessonPlayback := (lessonPlayback s)\<lparr>running := False\<rparr>\<rparr>;
                s2 = updLessonButton (callerBtn r)
                       (\<lambda>n. n\<lparr>lb_textContent := js ''Play lesson'', lb_is_playing := False\<rparr>) s1
            in stopCurrentAudio s2)
         else s)"

definition settleRun :: "phase \<Rightarrow> nat \<Rightarrow> state \<Rightarrow> state" where
  "settleRun ph rid s = lessonFinally rid (updRun rid (\<lambda>r. r\<lparr>phase := ph\<rparr>) s)"

text \<open>
  \<^verbatim>\<open>playLessonInOrder(urls, btns, token)\<close>, lines 187-201, cut at its \<^verbatim>\<open>await\<close>s:
  \<open>loopHead\<close> is the loop test and lines 189-191, \<open>afterClip\<close> lines 193-199 (and, for
  the last clip, \<^verbatim>\<open>i++\<close> and the failing loop test), \<open>afterSleep\<close> the \<^verbatim>\<open>i++\<close> after the
  pause and the next \<open>loopHead\<close>.
\<close>

definition loopHead :: "nat \<Rightarrow> bool \<Rightarrow> state \<Rightarrow> state" where
  "loopHead rid started s =
     (let r = runs s ! rid
      in if idx r < length (urls r) then
           if token (lessonPlayback s) \<noteq> runToken r then settleRun Completed rid s
           else playOne rid (idx r) (urls r ! idx r) (btnAt s (btnsRef r) (idx r)) started
                  (updRun rid (\<lambda>r. r\<lparr>phase := AwaitingClip\<rparr>) s)
         else settleRun Completed rid s)"

definition afterClip :: "nat \<Rightarrow> state \<Rightarrow> state" where
  "afterClip rid s =
     (let r = runs s ! rid;
          s1 = logObs (ClipEnded rid (idx r)) s
      in if idx r + 1 < length (urls r) then
           if token (lessonPlayback s1) \<noteq> runToken r then settleRun Completed rid s1
           else updRun rid (\<lambda>r. r\<lparr>phase := Sleeping 1000\<rparr>) s1
         else settleRun Completed rid (updRun rid (\<lambda>r. r\<lparr>idx := idx r + 1\<rparr>) s1))"

definition afterSleep :: "nat \<Rightarrow> nat \<Rightarrow> bool \<Rightarrow> state \<Rightarrow> state" where
  "afterSleep rid ms started s =
     (let r = runs s ! rid;
          s1 = logObs (DelayElapsed rid (idx r) ms) s
      in loopHead rid started (updRun rid (\<lambda>r. r\<lparr>idx := idx r + 1\<rparr>) s1))"

definition playLessonInOrder ::
  "target list \<Rightarrow> nat \<Rightarrow> nat \<Rightarrow> nat \<Rightarrow> bool \<Rightarrow> state \<Rightarrow> state" where
  "playLessonInOrder us ref tok caller started s =
     (let rid = length (runs s);
          s1 = s\<lparr>runs := runs s @
                 [\<lparr>urls = us, btnsRef = ref, runToken = tok, idx = 0, phase = AwaitingClip,
                   callerBtn = caller\<rparr>]\<rparr>
      in loopHead rid started s1)"

text \<open>The closures \<^verbatim>\<open>onEnded\<close> and \<^verbatim>\<open>onError\<close> of \<^verbatim>\<open>playOne\<close>, lines 167-168, and its
  \<^verbatim>\<open>catch\<close> block, lines 181-183, each followed by what the awaiting run does next.\<close>

definition onEnded :: "nat \<Rightarrow> nat \<Rightarrow> nat \<Rightarrow> state \<Rightarrow> state" where
  "onEnded rid i a s =
     (let s1 = cleanup rid i a s in if awaiting rid i s1 then afterClip rid s1 else s1)"

definition onError :: "nat \<Rightarrow> nat \<Rightarrow> nat \<Rightarrow> state \<Rightarrow> state" where
  "onError rid i a s =
     (let s1 = cleanup rid i a s in if awaiting rid i s1 then settleRun Aborted rid s1 else s1)"

definition playOneCatch :: "nat \<Rightarrow> nat \<Rightarrow> nat \<Rightarrow> state \<Rightarrow> state" where
  "playOneCatch rid i a s =
     (let s1 = cleanup rid i a s in if awaiting rid i s1 then settleRun Aborted rid s1 else s1)"

text \<open>The click handler of the play-lesson button, lines 691-705; \<open>p\<close> is the render
  pass whose \<^verbatim>\<open>sentenceUrls\<close> and \<^verbatim>\<open>sentenceBtns\<close> the handler closes over.\<close>

definition lessonClick :: "nat \<Rightarrow> nat \<Rightarrow> bool \<Rightarrow> state \<Rightarrow> state" where
  "lessonClick b p started s =
     (if running (lessonPlayback s) then stopLessonPlayback s
      else
        (let runToken = token (lessonPlayback s) + 1;
             s1 = s\<lparr>lessonPlayback := (lessonPlayback s)\<lparr>running := True, token := runToken\<rparr>\<rparr>;
             s2 = updLessonButton b
                    (\<lambda>n. n\<lparr>lb_textContent := js ''Stop'', lb_is_playing := True\<rparr>) s1
         in playLessonInOrder (sentenceUrls (passes s2 ! p)) p runToken b started s2))"

subsection \<open>Render pass\<close>

text \<open>
  The part of \<^verbatim>\<open>render()\<close> that playback depends on. \<open>render\<close> is lines 573-574 and
  602-653: a new token and the closure with \<^verbatim>\<open>sentenceUrls\<close> (one entry per line,
  \<^verbatim>\<open>null\<close> for a line without text) and \<^verbatim>\<open>sentenceBtns\<close> filled with \<^verbatim>\<open>null\<close>.
  \<open>revealButton\<close> is the callback of lines 656-669 for line \<open>i\<close>, \<open>offerLesson\<close>
  the block of lines 675-721, which creates the play-lesson button; \<open>results\<close> are the
  answers of \<^verbatim>\<open>audioExists\<close>, one per URL.
\<close>

definition render :: "target list \<Rightarrow> state \<Rightarrow> state" where
  "render us s =
     s\<lparr>renderToken := renderToken s + 1,
       passes := passes s @
         [\<lparr>myToken = renderToken s + 1, sentenceUrls = us,
           sentenceBtns = replicate (length us) None\<rparr>]\<rparr>"

definition revealButton :: "nat \<Rightarrow> nat \<Rightarrow> bool \<Rightarrow> state \<Rightarrow> state" where
  "revealButton p i exists s =
     (if p < length (passes s) \<and> i < length (sentenceUrls (passes s ! p)) then
        (case sentenceUrls (passes s ! p) ! i of
           None \<Rightarrow> s
         | Some url \<Rightarrow>
             if renderToken s \<noteq> myToken (passes s ! p) then s
             else if \<not> exists then s
             else
               (let playBtn = length (buttons s);
                    s1 = s\<lparr>buttons := buttons s @
                           [\<lparr>is_playing = False, textContent = playSymbol, clickAudio = None\<rparr>]\<rparr>;
                    s2 = s1\<lparr>passes := (passes s1)[p := (passes s1 ! p)
                           \<lparr>sentenceBtns := (sentenceBtns (passes s1 ! p))[i := Some playBtn]\<rparr>]\<rparr>
                in attachAudioButton playBtn url s2))
      else s)"

definition offerLesson :: "nat \<Rightarrow> bool list \<Rightarrow> state \<Rightarrow> state" where
  "offerLesson p results s =
     (if p < length (passes s) \<and> length results = length (sentenceUrls (passes s ! p)) then
        if list_ex falsy (sentenceUrls (passes s ! p)) then s
        else if renderToken s \<noteq> myToken (passes s ! p) then s
        else if list_ex (\<lambda>x. \<not> x) results then s
        else
          (let b = length (lessonButtons s);
               s1 = s\<lparr>lessonButtons := lessonButtons s @
                      [\<lparr>lb_is_playing = False, lb_textContent = js ''Play lesson'', lb_pass = p\<rparr>]\<rparr>
           in s1\<lparr>lessonPlayback := (lessonPlayback s1)\<lparr>lessonBtn := Some b\<rparr>\<rparr>)
      else s)"

subsection \<open>Events\<close>

text \<open>
  What the browser delivers. A user interface change (\<open>UIChange\<close>: every handler of
  \<^verbatim>\<open>wireUI\<close>, and \<^verbatim>\<open>init\<close>) calls \<^verbatim>\<open>stopLessonPlayback()\<close> and then \<^verbatim>\<open>render()\<close>. An
  \<^verbatim>\<open>ended\<close> event comes with \<^verbatim>\<open>paused\<close> set, as the HTML standard has it. An event the
  state does not enable (a click on a button that does not exist, a timer of a run that
  is not sleeping) changes nothing. Promises of \<^verbatim>\<open>audio.play()\<close> may settle at any time:
  the model allows more schedules than a browser produces, never fewer.
\<close>

datatype event =
    UIChange "target list"
  | ProbeResolved nat nat bool
  | LessonProbesResolved nat "bool list"
  | ClickSentence nat bool
  | ClickLesson nat bool
  | AudioEnded nat
  | AudioError nat
  | PlayFulfilled nat
  | PlayRejected nat
  | TimerFired nat bool
  | TimeUpdate nat nat

definition fireEnded :: "nat \<Rightarrow> state \<Rightarrow> listener \<Rightarrow> state" where
  "fireEnded a s l =
     (if l \<in> set (listeners (audioAt s a)) then
        (case l of Wired \<Rightarrow> wiredEnded a s | PlayOneL rid i \<Rightarrow> onEnded rid i a s)
      else s)"

definition fireError :: "nat \<Rightarrow> state \<Rightarrow> listener \<Rightarrow> state" where
  "fireError a s l =
     (if l \<in> set (listeners (audioAt s a)) then
        (case l of Wired \<Rightarrow> wiredError a s | PlayOneL rid i \<Rightarrow> onError rid i a s)
      else s)"

definition dropPromise :: "nat \<Rightarrow> state \<Rightarrow> state" where
  "dropPromise n s = s\<lparr>playPromises := take n (playPromises s) @ drop (Suc n) (playPromises s)\<rparr>"

definition step :: "event \<Rightarrow> state \<Rightarrow> state" where
  "step e s =
     (case e of
        UIChange us \<Rightarrow> render us (stopLessonPlayback s)
      | ProbeResolved p i exists \<Rightarrow> revealButton p i exists s
      | LessonProbesResolved p results \<Rightarrow> offerLesson p results s
      | ClickSentence b started \<Rightarrow>
          (if b < length (buttons s) then
             (case clickAudio (buttons s ! b) of
                None \<Rightarrow> s
              | Some a \<Rightarrow> sentenceClick b a started s)
           else s)
      | ClickLesson b started \<Rightarrow>
          (if b < length (lessonButtons s)
           then lessonClick b (lb_pass (lessonButtons s ! b)) started s else s)
      | AudioEnded a \<Rightarrow>
          (if a < length (audios s) then
             (let s1 = updAudio a (\<lambda>x. x\<lparr>paused := True\<rparr>) s
              in foldl (fireEnded a) s1 (listeners (audioAt s1 a)))
           else s)
      | AudioError a \<Rightarrow>
          (if a < length (audios s)
           then foldl (fireError a) s (listeners (audioAt s a)) else s)
      | PlayFulfilled n \<Rightarrow>
          (if n < length (playPromises s) then dropPromise n s else s)
      | PlayRejected n \<Rightarrow>
          (if n < length (playPromises s) then
             (case playPromises s ! n of
                ManualPlay a \<Rightarrow> sentenceClickCatch a (dropPromise n s)
              | SeqPlay rid i a \<Rightarrow> playOneCatch rid i a (dropPromise n s))
           else s)
      | TimerFired rid started \<Rightarrow>
          (if rid < length (runs s) then
             (case phase (runs s ! rid) of
                Sleeping ms \<Rightarrow> afterSleep rid ms started s
              | _ \<Rightarrow> s)
           else s)
      | TimeUpdate a t \<Rightarrow>
          (if a < length (audios s) \<and> \<not> paused (audioAt s a)
           then updAudio a (\<lambda>x. x\<lparr>currentTime := t\<rparr>) s else s))"

definition exec :: "event list \<Rightarrow> state \<Rightarrow> state" where
  "exec evs s = foldl (\<lambda>s e. step e s) s evs"

text \<open>The clips that are playing and the sentence buttons that show the playing state:
  the active playback sessions.\<close>

definition playingClips :: "state \<Rightarrow> nat list" where
  "playingClips s = filter (\<lambda>a. \<not> paused (audios s ! a)) [0..<length (audios s)]"

definition playingButtons :: "state \<Rightarrow> nat list" where
  "playingButtons s = filter (\<lambda>b. is_playing (buttons s ! b)) [0..<length (buttons s)]"

subsection \<open>Invariants\<close>

text \<open>\<open>exclusive\<close>: whatever plays, and whatever button shows the playing state, is the
  pair in \<^verbatim>\<open>currentlyPlaying\<close>. \<open>quiet\<close>: nothing plays and the slot is empty.\<close>

definition exclusive :: "state \<Rightarrow> bool" where
  "exclusive s \<longleftrightarrow>
     list_all (\<lambda>a. audio (currentlyPlaying s) = Some a) (playingClips s) \<and>
     list_all (\<lambda>b. btn (currentlyPlaying s) = Some b) (playingButtons s)"

definition quiet :: "state \<Rightarrow> bool" where
  "quiet s \<longleftrightarrow>
     playingClips s = [] \<and> playingButtons s = [] \<and>
     currentlyPlaying s = \<lparr>audio = None, btn = None\<rparr>"

text \<open>
  The part of the history that belongs to one run, and the order the sequencer is meant
  to keep for a run over \<open>n\<close> targets: clip \<open>0\<close> starts and ends, the one-second
  pause elapses, clip \<open>1\<close> starts and ends, and so on, with no pause after the last clip.
\<close>

definition runOf :: "obs \<Rightarrow> nat" where
  "runOf x = (case x of ClipStarted r _ \<Rightarrow> r | ClipEnded r _ \<Rightarrow> r | DelayElapsed r _ _ \<Rightarrow> r)"

definition isStart :: "obs \<Rightarrow> bool" where
  "isStart x = (case x of ClipStarted _ _ \<Rightarrow> True | _ \<Rightarrow> False)"

definition runHistory :: "nat \<Rightarrow> state \<Rightarrow> obs list" where
  "runHistory rid s = filter (\<lambda>x. runOf x = rid) (history s)"

definition schedule :: "nat \<Rightarrow> nat \<Rightarrow> obs list" where
  "schedule rid n =
     concat (map (\<lambda>i. [ClipStarted rid i, ClipEnded rid i] @
                       (if i + 1 < n then [DelayElapsed rid i 1000] else []))
               [0..<n])"

definition rounds :: "nat \<Rightarrow> nat \<Rightarrow> obs list" where
  "rounds rid k =
     concat (map (\<lambda>i. [ClipStarted rid i, ClipEnded rid i, DelayElapsed rid i 1000]) [0..<k])"

text \<open>The history of a run agrees with where the run is suspended.\<close>

definition runOk :: "nat \<Rightarrow> state \<Rightarrow> bool" where
  "runOk rid s \<longleftrightarrow>
     (let r = runs s ! rid; h = runHistory rid s; n = length (urls r)
      in case phase r of
           AwaitingClip \<Rightarrow> idx r < n \<and> h = rounds rid (idx r) @ [ClipStarted rid (idx r)]
         | Sleeping ms \<Rightarrow>
             ms = 1000 \<and> idx r + 1 < n \<and>
             h = rounds rid (idx r) @ [ClipStarted rid (idx r), ClipEnded rid (idx r)]
         | Completed \<Rightarrow> prefix h (schedule rid n)
         | Aborted \<Rightarrow> prefix h (schedule rid n))"

definition histInv :: "state \<Rightarrow> bool" where
  "histInv s \<longleftrightarrow>
     list_all (\<lambda>rid. runOk rid s) [0..<length (runs s)] \<and>
     list_all (\<lambda>x. runOf x < length (runs s)) (history s)"

text \<open>Tokens only grow, and no run holds a token from the future.\<close>

definition tokensOk :: "state \<Rightarrow> bool" where
  "tokensOk s \<longleftrightarrow> list_all (\<lambda>r. runToken r \<le> token (lessonPlayback s)) (runs s)"

text \<open>\<open>later s s'\<close>: from \<open>s\<close> to \<open>s'\<close> the runs of \<open>s\<close> kept their arguments, the
  token did not decrease, and no run whose token was already stale in \<open>s\<close> started a
  clip.\<close>

definition later :: "state \<Rightarrow> state \<Rightarrow> bool" where
  "later s s' \<longleftrightarrow>
     length (runs s) \<le> length (runs s') \<and>
     map runToken (take (length (runs s)) (runs s')) = map runToken (runs s) \<and>
     map urls (take (length (runs s)) (runs s')) = map urls (runs s) \<and>
     token (lessonPlayback s) \<le> token (lessonPlayback s') \<and>
     list_all (\<lambda>rid. runToken (runs s ! rid) < token (lessonPlayback s) \<longrightarrow>
                 filter isStart (runHistory rid s') = filter isStart (runHistory rid s))
       [0..<length (runs s)]"

text \<open>The targets handed to the sequencer all have an address.\<close>

definition urlsOk :: "state \<Rightarrow> bool" where
  "urlsOk s \<longleftrightarrow>
     list_all (\<lambda>r. \<not> list_ex falsy (urls r)) (runs s) \<and>
     list_all (\<lambda>b. lb_pass b < length (passes s) \<and>
                    \<not> list_ex falsy (sentenceUrls (passes s ! lb_pass b)))
       (lessonButtons s)"

definition mayStart :: "nat \<Rightarrow> state \<Rightarrow> bool" where
  "mayStart rid s \<longleftrightarrow>
     idx (runs s ! rid) < length (urls (runs s ! rid)) \<and>
     token (lessonPlayback s) = runToken (runs s ! rid)"

section \<open>Audio resolver\<close>

text \<open>
  \<^verbatim>\<open>audioExistsCache\<close> is a \<^verbatim>\<open>Map\<close> from address to boolean, in insertion order. The
  list \<open>probes\<close> records the \<^verbatim>\<open>HEAD\<close> requests that have been sent, in order.
\<close>

record resolver =
  audioExistsCache :: "(jsstring \<times> bool) list"
  probes :: "jsstring list"

definition resolver0 :: resolver where
  "resolver0 = \<lparr>audioExistsCache = [], probes = []\<rparr>"

text \<open>\<^verbatim>\<open>Map.prototype.set\<close>: an existing key keeps its position.\<close>

fun mapSet :: "'k \<Rightarrow> 'v \<Rightarrow> ('k \<times> 'v) list \<Rightarrow> ('k \<times> 'v) list" where
  "mapSet k v [] = [(k, v)]"
| "mapSet k v ((k', v') # m) = (if k' = k then (k, v) # m else (k', v') # mapSet k v m)"

text \<open>How the promise of \<^verbatim>\<open>fetch\<close> settles: a response with its \<^verbatim>\<open>ok\<close> flag, or a
  rejection.\<close>

datatype fetch_outcome = Response bool | NetworkError

text \<open>
  \<^verbatim>\<open>audioExists(url)\<close>, lines 46-58, is an \<^verbatim>\<open>async\<close> function: the call runs at once up
  to \<^verbatim>\<open>await fetch(...)\<close>, so the request is sent during the call. \<open>audioExists_call\<close>
  is that first part: \<open>Some v\<close> is the value returned from the cache, \<open>None\<close> means the
  call is suspended on the request it has sent. \<open>audioExists_resume\<close> is the rest, run
  when the request settles; it gives the value the call returns.
\<close>

definition audioExists_call :: "jsstring \<Rightarrow> resolver \<Rightarrow> bool option \<times> resolver" where
  "audioExists_call url r =
     (case map_of (audioExistsCache r) url of
        Some v \<Rightarrow> (Some v, r)
      | None \<Rightarrow> (None, r\<lparr>probes := probes r @ [url]\<rparr>))"

definition audioExists_resume :: "jsstring \<Rightarrow> fetch_outcome \<Rightarrow> resolver \<Rightarrow> bool \<times> resolver" where
  "audioExists_resume url out r =
     (case out of
        Response ok \<Rightarrow> (ok, r\<lparr>audioExistsCache := mapSet url ok (audioExistsCache r)\<rparr>)
      | NetworkError \<Rightarrow> (False, r\<lparr>audioExistsCache := mapSet url False (audioExistsCache r)\<rparr>))"

text \<open>
  The calls of \<^verbatim>\<open>audioExists\<close> that one pass of \<^verbatim>\<open>render\<close> makes before it returns: one
  for every line that has an address (line 656), then, unless some line has none, one
  more for every line (line 680, \<^verbatim>\<open>Promise.all(sentenceUrls.map(...))\<close>; the body of the
  \<^verbatim>\<open>async\<close> arrow function runs at once up to its \<^verbatim>\<open>await\<close>). No request can settle in
  between.
\<close>

definition renderProbes :: "target list \<Rightarrow> resolver \<Rightarrow> resolver" where
  "renderProbes us r =
     (let r1 = foldl (\<lambda>r u. case u of None \<Rightarrow> r | Some url \<Rightarrow> snd (audioExists_call url r)) r us
      in if list_ex falsy us then r1
         else foldl (\<lambda>r u. snd (audioExists_call (the u) r)) r1 us)"

text \<open>The address of the clip of the sentence \<^verbatim>\<open>Hello.\<close> in \<^verbatim>\<open>English\<close>.\<close>

definition helloUrl :: jsstring where
  "helloUrl = js ''Audio/English/Hello..m4a''"
section \<open>Properties of the resolver\<close>

lemma split_not_Nil: "split sep s \<noteq> []"
  by (induction s) (auto split: list.splits)

lemma join_split: "join sep (split sep s) = s"
proof (induction s)
  case Nil
  then show ?case by simp
next
  case (Cons c cs)
  obtain seg segs where sp: "split sep cs = seg # segs"
    using split_not_Nil [of sep cs] by (cases "split sep cs") auto
  show ?case
  proof (cases "c = sep")
    case True
    with Cons sp show ?thesis by simp
  next
    case False
    with Cons sp show ?thesis by (cases segs) auto
  qed
qed

lemma split_length: "length (split sep s) = Suc (length (filter (\<lambda>c. c = sep) s))"
proof (induction s)
  case Nil
  then show ?case by simp
next
  case (Cons c cs)
  then show ?case by (cases "split sep cs") auto
qed

lemma split_append_sep: "split sep (x @ sep # y) = split sep x @ split sep y"
proof (induction x)
  case Nil
  then show ?case by simp
next
  case (Cons c cs)
  obtain seg segs where sp: "split sep cs = seg # segs"
    using split_not_Nil [of sep cs] by (cases "split sep cs") auto
  with Cons show ?case by auto
qed

lemma split_append_nosep:
  "sep \<notin> set t \<Longrightarrow> split sep (s @ t) = butlast (split sep s) @ [last (split sep s) @ t]"
proof (induction s)
  case Nil
  then show ?case by (induction t) (auto split: list.splits)
next
  case (Cons c cs)
  obtain seg segs where sp: "split sep cs = seg # segs"
    using split_not_Nil [of sep cs] by (cases "split sep cs") auto
  with Cons show ?case by (cases segs) (auto split: list.splits)
qed

lemma split_nosep: "sep \<notin> set t \<Longrightarrow> split sep t = [t]"
  by (induction t) auto

lemma split_segments_nosep: "seg \<in> set (split sep s) \<Longrightarrow> sep \<notin> set seg"
proof (induction s arbitrary: seg)
  case Nil
  then show ?case by simp
next
  case (Cons c cs)
  then show ?case by (cases "split sep cs") (auto split: if_splits)
qed

lemma split_join:
  "xs \<noteq> [] \<Longrightarrow> \<forall>x\<in>set xs. sep \<notin> set x \<Longrightarrow> split sep (join sep xs) = xs"
proof (induction sep xs rule: join.induct)
  case (1 sep)
  then show ?case by simp
next
  case (2 sep x)
  then show ?case by (simp add: split_nosep)
next
  case (3 sep x y ys)
  then show ?case by (simp add: split_append_sep split_nosep)
qed

lemma join_append:
  "xs \<noteq> [] \<Longrightarrow> ys \<noteq> [] \<Longrightarrow> join sep (xs @ ys) = join sep xs @ sep # join sep ys"
proof (induction sep xs rule: join.induct)
  case (1 sep)
  then show ?case by simp
next
  case (2 sep x)
  then show ?case by (cases ys) auto
next
  case (3 sep x y ys)
  then show ?case by simp
qed

lemma join_Cons: "ys \<noteq> [] \<Longrightarrow> join sep (x # ys) = x @ sep # join sep ys"
  by (cases ys) auto

lemma join_snoc_append:
  "xs \<noteq> [] \<Longrightarrow> join sep (butlast xs @ [last xs @ t]) = join sep xs @ t"
proof (induction sep xs rule: join.induct)
  case (1 sep)
  then show ?case by simp
next
  case (2 sep x)
  then show ?case by simp
next
  case (3 sep x y ys)
  then show ?case by (cases "butlast (y # ys)") (auto split: if_splits)
qed

lemma hexDigit_not_slash: "hexDigit n \<noteq> 47"
  by (simp add: hexDigit_def)

lemma percentEncode_no_slash: "47 \<notin> set (percentEncode cp)"
  by (auto simp: percentEncode_def percentOctet_def hexDigit_def)

lemma uriUnescaped_not_slash: "uriUnescaped c \<Longrightarrow> c \<noteq> 47"
  by (auto simp: uriUnescaped_def)

lemma uriUnescaped_not_surrogate:
  "uriUnescaped c \<Longrightarrow> \<not> isLeadingSurrogate c \<and> \<not> isTrailingSurrogate c"
  by (auto simp: uriUnescaped_def isLeadingSurrogate_def isTrailingSurrogate_def)

lemma surrogate_disjoint: "isLeadingSurrogate c \<Longrightarrow> \<not> isTrailingSurrogate c"
  by (simp add: isLeadingSurrogate_def isTrailingSurrogate_def)

lemma encodeURIComponent_no_slash:
  "encodeURIComponent s = Inr r \<Longrightarrow> 47 \<notin> set r"
proof (induction s arbitrary: r rule: encodeURIComponent.induct)
  case 1
  then show ?case by simp
next
  case (2 c cs)
  show ?case
  proof (cases "uriUnescaped c")
    case True
    with 2 show ?thesis
      by (auto simp: uriUnescaped_not_slash split: sum.splits)
  next
    case nu: False
    show ?thesis
    proof (cases "isLeadingSurrogate c")
      case True
      with nu 2 show ?thesis
        by (auto simp: percentEncode_no_slash split: sum.splits list.splits if_splits)
    next
      case False
      with nu 2 show ?thesis
        by (auto simp: percentEncode_no_slash split: sum.splits if_splits)
    qed
  qed
qed

lemma encodeURIComponent_wellFormed:
  "wellFormed s \<Longrightarrow> \<exists>r. encodeURIComponent s = Inr r"
proof (induction s rule: encodeURIComponent.induct)
  case 1
  then show ?case by simp
next
  case (2 c cs)
  show ?case
  proof (cases "uriUnescaped c")
    case True
    with 2 uriUnescaped_not_surrogate [of c] show ?thesis by auto
  next
    case nu: False
    show ?thesis
    proof (cases "isLeadingSurrogate c")
      case True
      with nu 2 show ?thesis by (cases cs) auto
    next
      case False
      with nu 2 show ?thesis by auto
    qed
  qed
qed


lemma encodeURIComponent_append_unescaped:
  "wellFormed s \<Longrightarrow> \<forall>c\<in>set t. uriUnescaped c \<Longrightarrow> encodeURIComponent s = Inr e \<Longrightarrow>
     encodeURIComponent (s @ t) = Inr (e @ t)"
proof (induction s arbitrary: e rule: encodeURIComponent.induct)
  case 1
  then show ?case by (induction t) auto
next
  case (2 c cs)
  show ?case
  proof (cases "uriUnescaped c")
    case True
    with 2 uriUnescaped_not_surrogate [of c] show ?thesis
      by (auto split: sum.splits)
  next
    case nu: False
    show ?thesis
    proof (cases "isLeadingSurrogate c")
      case True
      with nu 2 show ?thesis by (cases cs) (auto split: sum.splits)
    next
      case False
      with nu 2 show ?thesis by (auto split: sum.splits)
    qed
  qed
qed

lemma wellFormed_split:
  "wellFormed s \<Longrightarrow> seg \<in> set (split 47 s) \<Longrightarrow> wellFormed seg"
proof (induction s arbitrary: seg rule: wellFormed.induct)
  case 1
  then show ?case by simp
next
  case (2 c cs)
  show ?case
  proof (cases "isLeadingSurrogate c")
    case True
    then have c47: "c \<noteq> 47" by (auto simp: isLeadingSurrogate_def)
    from True 2 obtain d ds where cs: "cs = d # ds" and d: "isTrailingSurrogate d"
      and wf: "wellFormed ds" by (cases cs) auto
    from d have d47: "d \<noteq> 47" by (auto simp: isTrailingSurrogate_def)
    obtain x xs where sp: "split 47 ds = x # xs"
      using split_not_Nil [of 47 ds] by (cases "split 47 ds") auto
    from "2.prems"(2) c47 d47 cs sp have "seg = c # d # x \<or> seg \<in> set xs" by auto
    then show ?thesis
    proof
      assume "seg = c # d # x"
      moreover have "wellFormed x" using "2.IH"(1) [OF True cs, of x] wf sp by simp
      ultimately show ?thesis using True d by simp
    next
      assume "seg \<in> set xs"
      then show ?thesis using "2.IH"(1) [OF True cs, of seg] wf sp by simp
    qed
  next
    case False
    with 2 have nt: "\<not> isTrailingSurrogate c" and wf: "wellFormed cs" by auto
    obtain x xs where sp: "split 47 cs = x # xs"
      using split_not_Nil [of 47 cs] by (cases "split 47 cs") auto
    show ?thesis
    proof (cases "c = 47")
      case True
      with "2.prems"(2) sp have "seg = [] \<or> seg \<in> set (split 47 cs)" by auto
      then show ?thesis using "2.IH"(2) [OF False, of seg] wf by auto
    next
      case c47: False
      with "2.prems"(2) sp have "seg = c # x \<or> seg \<in> set xs" by auto
      then show ?thesis
      proof
        assume "seg = c # x"
        moreover have "wellFormed x" using "2.IH"(2) [OF False, of x] wf sp by simp
        ultimately show ?thesis using False nt by simp
      next
        assume "seg \<in> set xs"
        then show ?thesis using "2.IH"(2) [OF False, of seg] wf sp by simp
      qed
    qed
  qed
qed

lemma mapEncode_total:
  "\<forall>x\<in>set xs. wellFormed x \<Longrightarrow> \<exists>ys. mapEncode xs = Inr ys"
proof (induction xs)
  case Nil
  then show ?case by simp
next
  case (Cons x xs)
  then obtain y ys where "encodeURIComponent x = Inr y" "mapEncode xs = Inr ys"
    using encodeURIComponent_wellFormed [of x] by auto
  then show ?case by simp
qed

lemma mapEncode_map:
  "mapEncode xs = Inr ys \<Longrightarrow> map encodeURIComponent xs = map Inr ys"
  by (induction xs arbitrary: ys) (auto split: sum.splits)

lemma mapEncode_length: "mapEncode xs = Inr ys \<Longrightarrow> length ys = length xs"
  by (induction xs arbitrary: ys) (auto split: sum.splits)

lemma mapEncode_no_slash: "mapEncode xs = Inr ys \<Longrightarrow> y \<in> set ys \<Longrightarrow> 47 \<notin> set y"
  by (induction xs arbitrary: ys) (auto split: sum.splits dest: encodeURIComponent_no_slash)

lemma mapEncode_append:
  "mapEncode xs = Inr a \<Longrightarrow> mapEncode ys = Inr b \<Longrightarrow> mapEncode (xs @ ys) = Inr (a @ b)"
  by (induction xs arbitrary: a) (auto split: sum.splits)

lemma mapEncode_snoc_unescaped:
  assumes "xs \<noteq> []" "\<forall>x\<in>set xs. wellFormed x" "\<forall>c\<in>set t. uriUnescaped c"
    and "mapEncode xs = Inr ys"
  shows "mapEncode (butlast xs @ [last xs @ t]) = Inr (butlast ys @ [last ys @ t])"
  using assms
proof (induction xs arbitrary: ys)
  case Nil
  then show ?case by simp
next
  case (Cons x xs)
  from Cons.prems obtain y ys' where y: "encodeURIComponent x = Inr y"
    and ys': "mapEncode xs = Inr ys'" and ys: "ys = y # ys'"
    by (auto split: sum.splits)
  show ?case
  proof (cases "xs = []")
    case True
    with Cons.prems y ys' ys show ?thesis
      by (simp add: encodeURIComponent_append_unescaped)
  next
    case False
    with ys' have "ys' \<noteq> []" by (cases xs) (auto split: sum.splits)
    with False Cons y ys' ys show ?thesis by simp
  qed
qed


lemma wellFormed_append: "wellFormed a \<Longrightarrow> wellFormed b \<Longrightarrow> wellFormed (a @ b)"
proof (induction a rule: wellFormed.induct)
  case 1
  then show ?case by simp
next
  case (2 c cs)
  then show ?case by (cases cs) (auto split: if_splits)
qed

lemma audioPath_shape:
  "audioPath language sentenceText =
     js ''Audio'' @ 47 # language @ 47 # sentenceText @ js ''.m4a''"
  by (simp add: audioPath_def AUDIO_DIR_def AUDIO_EXT_def js_def)

lemma wellFormed_unescaped: "\<forall>c\<in>set t. uriUnescaped c \<Longrightarrow> wellFormed t"
  by (induction t) (auto dest: uriUnescaped_not_surrogate)

lemma encodeURIComponent_unescaped:
  "\<forall>c\<in>set t. uriUnescaped c \<Longrightarrow> encodeURIComponent t = Inr t"
  by (induction t) auto

lemma unescaped_Audio: "\<forall>c\<in>set (js ''Audio''). uriUnescaped c"
  by (simp add: js_def uriUnescaped_def)

lemma unescaped_ext: "\<forall>c\<in>set (js ''.m4a''). uriUnescaped c"
  by (simp add: js_def uriUnescaped_def)

lemma wellFormed_audioPath:
  "wellFormed language \<Longrightarrow> wellFormed sentenceText \<Longrightarrow>
     wellFormed (audioPath language sentenceText)"
proof -
  assume l: "wellFormed language" and s: "wellFormed sentenceText"
  have sl: "wellFormed [47]" by (simp add: isLeadingSurrogate_def isTrailingSurrogate_def)
  have "wellFormed (js ''Audio'' @ [47] @ language @ [47] @ sentenceText @ js ''.m4a'')"
    by (intro wellFormed_append l s sl wellFormed_unescaped unescaped_Audio unescaped_ext)
  then show ?thesis by (simp add: audioPath_shape)
qed

lemma buildAudioUrl_segments:
  assumes "wellFormed language" and "wellFormed sentenceText"
  shows "\<exists>segs. mapEncode (split 47 (audioPath language sentenceText)) = Inr segs \<and>
           buildAudioUrl language sentenceText = Inr (join 47 segs) \<and>
           split 47 (join 47 segs) = segs"
proof -
  let ?p = "audioPath language sentenceText"
  have "\<forall>x\<in>set (split 47 ?p). wellFormed x"
    using wellFormed_split [OF wellFormed_audioPath [OF assms]] by blast
  then obtain segs where segs: "mapEncode (split 47 ?p) = Inr segs"
    using mapEncode_total by blast
  then have ne: "segs \<noteq> []"
    using mapEncode_length [OF segs] split_not_Nil [of 47 ?p] by auto
  have "\<forall>x\<in>set segs. 47 \<notin> set x"
    using mapEncode_no_slash [OF segs] by blast
  with ne have "split 47 (join 47 segs) = segs" by (rule split_join)
  with segs show ?thesis by (simp add: buildAudioUrl_def)
qed

lemma buildAudioUrl_closed_form:
  assumes l: "wellFormed language" and s: "wellFormed sentenceText"
  shows "\<exists>ls ts. mapEncode (split 47 language) = Inr ls \<and>
           mapEncode (split 47 sentenceText) = Inr ts \<and>
           buildAudioUrl language sentenceText =
             Inr (js ''Audio'' @ 47 # join 47 ls @ 47 # join 47 ts @ js ''.m4a'')"
proof -
  let ?A = "js ''Audio''" and ?e = "js ''.m4a''"
  have wl: "\<forall>x\<in>set (split 47 language). wellFormed x"
    using wellFormed_split [OF l] by blast
  have ws: "\<forall>x\<in>set (split 47 sentenceText). wellFormed x"
    using wellFormed_split [OF s] by blast
  from wl obtain ls where ls: "mapEncode (split 47 language) = Inr ls"
    using mapEncode_total by blast
  from ws obtain ts where ts: "mapEncode (split 47 sentenceText) = Inr ts"
    using mapEncode_total by blast
  have lne: "ls \<noteq> []" using mapEncode_length [OF ls] split_not_Nil [of 47 language] by auto
  have tne: "ts \<noteq> []" using mapEncode_length [OF ts] split_not_Nil [of 47 sentenceText] by auto
  have A47: "47 \<notin> set ?A" and e47: "47 \<notin> set ?e" by (simp_all add: js_def)
  have spA: "split 47 ?A = [?A]" using A47 by (rule split_nosep)
  have sp: "split 47 (audioPath language sentenceText) =
      [?A] @ split 47 language @
        (butlast (split 47 sentenceText) @ [last (split 47 sentenceText) @ ?e])"
    by (simp only: audioPath_shape split_append_sep split_append_nosep [OF e47] spA)
  have mA: "mapEncode [?A] = Inr [?A]"
    by (simp add: encodeURIComponent_unescaped [OF unescaped_Audio])
  have mt: "mapEncode (butlast (split 47 sentenceText) @ [last (split 47 sentenceText) @ ?e])
      = Inr (butlast ts @ [last ts @ ?e])"
    using mapEncode_snoc_unescaped [OF split_not_Nil ws unescaped_ext ts] .
  have m: "mapEncode (split 47 (audioPath language sentenceText)) =
      Inr ([?A] @ ls @ (butlast ts @ [last ts @ ?e]))"
    unfolding sp by (intro mapEncode_append mA ls mt)
  have j: "join 47 ([?A] @ ls @ (butlast ts @ [last ts @ ?e])) =
      ?A @ 47 # join 47 ls @ 47 # join 47 ts @ ?e"
    using lne tne by (simp add: join_Cons join_append join_snoc_append)
  show ?thesis using ls ts m j by (simp add: buildAudioUrl_def)
qed

lemma buildAudioUrl_Hello:
  "buildAudioUrl (js ''English'') (js ''Hello.'') = Inr (js ''Audio/English/Hello..m4a'')"
  by (simp add: buildAudioUrl_def audioPath_def AUDIO_DIR_def AUDIO_EXT_def js_def
      uriUnescaped_def)

lemma buildAudioUrl_a_b:
  "buildAudioUrl (js ''L'') (js ''a/b'') = Inr (js ''Audio/L/a/b.m4a'')"
  by (simp add: buildAudioUrl_def audioPath_def AUDIO_DIR_def AUDIO_EXT_def js_def
      uriUnescaped_def)

lemma buildAudioUrl_space:
  "buildAudioUrl (js ''English'') [72, 105, 32, 233, 33] = Inr (js ''Audio/English/Hi%20%C3%A9!.m4a'')"
  by (simp add: buildAudioUrl_def audioPath_def AUDIO_DIR_def AUDIO_EXT_def js_def
      uriUnescaped_def isLeadingSurrogate_def isTrailingSurrogate_def percentEncode_def
      percentOctet_def utf8Octets_def hexDigit_def)

lemma buildAudioUrl_unpaired_surrogate:
  "buildAudioUrl (js ''English'') [55296] = Inl URIError"
  by (simp add: buildAudioUrl_def audioPath_def AUDIO_DIR_def AUDIO_EXT_def js_def
      uriUnescaped_def isLeadingSurrogate_def isTrailingSurrogate_def)

text \<open>
  \<^bold>\<open>C7.\<close> For every language and sentence text (well-formed strings, as all dataset
  text is) \<open>buildAudioUrl\<close> returns an address, never an error. The address is the
  path \<^verbatim>\<open>Audio/<language>/<sentence>.m4a\<close> split at its slashes, every segment passed
  through \<^verbatim>\<open>encodeURIComponent\<close> on its own, and the encoded segments joined by literal
  slashes: splitting the address at \<open>/\<close> gives back exactly the encoded segments. In
  closed form it is \<^verbatim>\<open>Audio/\<close>, the segment-wise encoded language, \<^verbatim>\<open>/\<close>, the
  segment-wise encoded sentence and \<^verbatim>\<open>.m4a\<close>. For \<^verbatim>\<open>"Hello."\<close> in \<^verbatim>\<open>"English"\<close> the
  address is \<^verbatim>\<open>Audio/English/Hello..m4a\<close>, with the doubled full stop.
\<close>

theorem buildAudioUrl_segmentwise:
  assumes "wellFormed language" and "wellFormed sentenceText"
  shows "(\<exists>segs.
            map encodeURIComponent
              (split 47 (js ''Audio'' @ js ''/'' @ language @ js ''/'' @ sentenceText @ js ''.m4a''))
              = map Inr segs \<and>
            buildAudioUrl language sentenceText = Inr (join 47 segs) \<and>
            split 47 (join 47 segs) = segs) \<and>
         (\<exists>ls ts.
            mapEncode (split 47 language) = Inr ls \<and>
            mapEncode (split 47 sentenceText) = Inr ts \<and>
            buildAudioUrl language sentenceText =
              Inr (js ''Audio/'' @ join 47 ls @ js ''/'' @ join 47 ts @ js ''.m4a'')) \<and>
         buildAudioUrl (js ''English'') (js ''Hello.'') = Inr (js ''Audio/English/Hello..m4a'')"
proof -
  have p: "js ''Audio'' @ js ''/'' @ language @ js ''/'' @ sentenceText @ js ''.m4a''
      = audioPath language sentenceText"
    by (simp add: audioPath_shape) (simp add: js_def)
  from buildAudioUrl_segments [OF assms] obtain segs where
    "mapEncode (split 47 (audioPath language sentenceText)) = Inr segs"
    "buildAudioUrl language sentenceText = Inr (join 47 segs)"
    "split 47 (join 47 segs) = segs" by blast
  then have first: "\<exists>segs.
      map encodeURIComponent
        (split 47 (js ''Audio'' @ js ''/'' @ language @ js ''/'' @ sentenceText @ js ''.m4a''))
        = map Inr segs \<and>
      buildAudioUrl language sentenceText = Inr (join 47 segs) \<and>
      split 47 (join 47 segs) = segs"
    unfolding p using mapEncode_map by blast
  from buildAudioUrl_closed_form [OF assms] obtain ls ts where
    "mapEncode (split 47 language) = Inr ls" "mapEncode (split 47 sentenceText) = Inr ts"
    "buildAudioUrl language sentenceText =
       Inr (js ''Audio'' @ 47 # join 47 ls @ 47 # join 47 ts @ js ''.m4a'')" by blast
  moreover have "js ''Audio/'' = js ''Audio'' @ [47]" and "js ''/'' = [47]"
    by (simp_all add: js_def)
  ultimately have second: "\<exists>ls ts.
      mapEncode (split 47 language) = Inr ls \<and>
      mapEncode (split 47 sentenceText) = Inr ts \<and>
      buildAudioUrl language sentenceText =
        Inr (js ''Audio/'' @ join 47 ls @ js ''/'' @ join 47 ts @ js ''.m4a'')"
    by simp
  from first second buildAudioUrl_Hello show ?thesis by blast
qed

theorem buildAudioUrl_segmentwise_witness:
  "wellFormed (js ''English'') \<and> wellFormed (js ''Hi there.'') \<and>
   (\<exists>ls ts.
      mapEncode (split 47 (js ''English'')) = Inr ls \<and>
      mapEncode (split 47 (js ''Hi there.'')) = Inr ts \<and>
      buildAudioUrl (js ''English'') (js ''Hi there.'') =
        Inr (js ''Audio/'' @ join 47 ls @ js ''/'' @ join 47 ts @ js ''.m4a''))"
proof -
  have a: "wellFormed (js ''English'')"
    by (simp add: js_def isLeadingSurrogate_def isTrailingSurrogate_def)
  have b: "wellFormed (js ''Hi there.'')"
    by (simp add: js_def isLeadingSurrogate_def isTrailingSurrogate_def)
  from buildAudioUrl_segmentwise [OF a b] a b show ?thesis by blast
qed

text \<open>
  \<^bold>\<open>C10.\<close> The path is split at every \<open>/\<close> before encoding, so a slash inside the
  sentence text (or the language name) stays a literal separator: the address has exactly
  as many slashes as the two of the layout plus those of the language and of the sentence,
  none is encoded, and with a slash in the sentence the address has more than three
  segments. Sentence \<^verbatim>\<open>"a/b"\<close> in language \<^verbatim>\<open>"L"\<close> gives \<^verbatim>\<open>Audio/L/a/b.m4a\<close>.
\<close>

theorem buildAudioUrl_slash_is_separator:
  assumes "47 \<in> set sentenceText" and "wellFormed language" and "wellFormed sentenceText"
  shows "\<exists>r. buildAudioUrl language sentenceText = Inr r \<and>
           3 < length (split 47 r) \<and>
           length (split 47 r) =
             1 + length (split 47 language) + length (split 47 sentenceText) \<and>
           length (filter (\<lambda>c. c = 47) r) =
             2 + length (filter (\<lambda>c. c = 47) language) +
               length (filter (\<lambda>c. c = 47) sentenceText) \<and>
           buildAudioUrl (js ''L'') (js ''a/b'') = Inr (js ''Audio/L/a/b.m4a'')"
proof -
  from buildAudioUrl_segments [OF assms(2,3)] obtain segs where
    m: "mapEncode (split 47 (audioPath language sentenceText)) = Inr segs" and
    r: "buildAudioUrl language sentenceText = Inr (join 47 segs)" and
    s: "split 47 (join 47 segs) = segs" by blast
  have "length segs = length (split 47 (audioPath language sentenceText))"
    using mapEncode_length [OF m] .
  also have "\<dots> = 1 + length (split 47 language) + length (split 47 sentenceText)"
    by (simp add: audioPath_shape split_length) (simp add: js_def)
  finally have len: "length (split 47 (join 47 segs)) =
      1 + length (split 47 language) + length (split 47 sentenceText)"
    using s by simp
  have "filter (\<lambda>c. c = 47) sentenceText \<noteq> []"
    using assms(1) by (simp add: filter_empty_conv)
  then have "2 \<le> length (split 47 sentenceText)"
    by (cases "filter (\<lambda>c. c = 47) sentenceText") (simp_all add: split_length)
  moreover have "1 \<le> length (split 47 language)" by (simp add: split_length)
  ultimately have gt: "3 < length (split 47 (join 47 segs))" using len by simp
  have cnt: "length (filter (\<lambda>c. c = 47) (join 47 segs)) =
      2 + length (filter (\<lambda>c. c = 47) language) +
        length (filter (\<lambda>c. c = 47) sentenceText)"
    using len by (simp add: split_length)
  from r gt len cnt buildAudioUrl_a_b show ?thesis by blast
qed

theorem buildAudioUrl_slash_is_separator_witness:
  "47 \<in> set (js ''a/b/c'') \<and> wellFormed (js ''L/M'') \<and> wellFormed (js ''a/b/c'') \<and>
   (\<exists>r. buildAudioUrl (js ''L/M'') (js ''a/b/c'') = Inr r \<and> 3 < length (split 47 r) \<and>
      length (filter (\<lambda>c. c = 47) r) = 5)"
proof -
  have a: "47 \<in> set (js ''a/b/c'')" by (simp add: js_def)
  have b: "wellFormed (js ''L/M'')"
    by (simp add: js_def isLeadingSurrogate_def isTrailingSurrogate_def)
  have c: "wellFormed (js ''a/b/c'')"
    by (simp add: js_def isLeadingSurrogate_def isTrailingSurrogate_def)
  have d: "length (filter (\<lambda>c. c = 47) (js ''L/M'')) = 1"
    "length (filter (\<lambda>c. c = 47) (js ''a/b/c'')) = 2" by (simp_all add: js_def)
  from buildAudioUrl_slash_is_separator [OF a b c] obtain r where
    "buildAudioUrl (js ''L/M'') (js ''a/b/c'') = Inr r" "3 < length (split 47 r)"
    "length (filter (\<lambda>c. c = 47) r) =
       2 + length (filter (\<lambda>c. c = 47) (js ''L/M'')) +
         length (filter (\<lambda>c. c = 47) (js ''a/b/c''))" by blast
  with d have "buildAudioUrl (js ''L/M'') (js ''a/b/c'') = Inr r \<and> 3 < length (split 47 r) \<and>
      length (filter (\<lambda>c. c = 47) r) = 5" by simp
  with a b c show ?thesis by blast
qed


section \<open>Number values and the sort\<close>

declare bitLength.simps [simp del]

lemma pow2_pos [simp]: "0 < pow2 e"
  by (simp add: pow2_def)



lemma pow2_nat: "pow2 (int n) = 2 ^ n"
  by (simp add: pow2_def)

lemma pow2_neg: "pow2 (- e) = 1 / pow2 e"
  by (simp add: pow2_def power_int_minus_divide)


lemma bitLength_0: "bitLength 0 = 0"
  by (simp add: bitLength.simps)

lemma bitLength_pos: "0 < n \<Longrightarrow> bitLength n = Suc (bitLength (n div 2))"
  by (subst bitLength.simps) simp

lemma bitLength_bounds: "0 < n \<Longrightarrow> 2 ^ (bitLength n - 1) \<le> n \<and> n < 2 ^ bitLength n"
proof (induction n rule: bitLength.induct)
  case (1 n)
  from "1.prems" have n0: "n \<noteq> 0" by simp
  have bl: "bitLength n = Suc (bitLength (n div 2))" using "1.prems" by (rule bitLength_pos)
  show ?case
  proof (cases "n div 2 = 0")
    case True
    then show ?thesis using "1.prems" by (simp add: bl bitLength_0)
  next
    case False
    then have pos: "0 < n div 2" by simp
    from "1.IH" [OF n0 pos] have lo: "2 ^ (bitLength (n div 2) - 1) \<le> n div 2"
      and hi: "n div 2 < 2 ^ bitLength (n div 2)" by simp_all
    obtain k where k: "bitLength (n div 2) = Suc k" using bitLength_pos [OF pos] by blast
    from lo k have "2 * 2 ^ k \<le> 2 * (n div 2)" by simp
    also have "\<dots> \<le> n" by simp
    finally have a: "2 ^ (bitLength n - 1) \<le> n" by (simp add: bl k)
    from hi have "Suc (n div 2) \<le> 2 ^ bitLength (n div 2)" by simp
    then have "2 * Suc (n div 2) \<le> 2 * 2 ^ bitLength (n div 2)" by simp
    moreover have "n < 2 * Suc (n div 2)" by presburger
    ultimately have b: "n < 2 ^ bitLength n" by (simp add: bl)
    from a b show ?thesis by simp
  qed
qed














lemma bitLength_numeral [simp]:
  "bitLength (numeral (Num.Bit0 k)) = Suc (bitLength (numeral k))"
  "bitLength (numeral (Num.Bit1 k)) = Suc (bitLength (numeral k))"
  "bitLength (numeral Num.One) = Suc 0"
  "bitLength (Suc 0) = Suc 0"
  "bitLength 1 = Suc 0"
  by (simp_all add: bitLength_pos bitLength_0 numeral_Bit0_div_2 numeral_Bit1_div_2)

lemma floor_rat_numeral_div [simp]:
  "\<lfloor>(numeral a :: rat) / numeral b\<rfloor> = numeral a div numeral b"
  using floor_divide_of_int_eq [of "numeral a" "numeral b", where ?'a = rat] by simp

lemma ceiling_rat_numeral_div [simp]:
  "\<lceil>(numeral a :: rat) / numeral b\<rceil> = - (- numeral a div numeral b)"
  using ceiling_divide_eq_div [of "numeral a" "numeral b"]
  by (simp add: ceiling_def floor_divide_of_int_eq [of "- numeral a" "numeral b", where ?'a = rat, simplified])





subsection \<open>The sort\<close>





subsection \<open>Decimal integers\<close>

text \<open>A run of decimal digits whose value is at most \<open>2^53\<close> denotes exactly that
  integer.\<close>

lemma roundTiesToEven_of_int: "roundTiesToEven (of_int k) = k"
  by (simp add: roundTiesToEven_def)

lemma exponentOf_of_nat: "0 < n \<Longrightarrow> exponentOf (of_nat n) = int (bitLength n) - 1"
  by (simp add: exponentOf_def)

lemma numberValue_safe_integer:
  assumes n: "n \<le> 2 ^ 53"
  shows "numberValue (of_nat n) = Num (of_nat n)"
proof (cases "n = 0")
  case True
  then show ?thesis by (simp add: numberValue_def)
next
  case False
  then have pos: "0 < n" by simp
  obtain k where k: "bitLength n = Suc k" using bitLength_pos [OF pos] by blast
  from bitLength_bounds [OF pos] k have lo: "2 ^ k \<le> n" by simp
  from lo n have "(2::nat) ^ k \<le> 2 ^ 53" by (rule le_trans)
  then have k53: "k \<le> 53" by (rule power_le_imp_le_exp [rotated]) simp
  have e: "max (exponentOf (of_nat n)) (- 1022) = int k"
    by (simp add: exponentOf_of_nat [OF pos] k)
  have "\<exists>m::int. (of_nat n :: rat) / pow2 (int k - 52) = of_int m"
  proof (cases "k \<le> 52")
    case True
    then have "int k - 52 = - int (52 - k)" by simp
    then have "pow2 (int k - 52) = 1 / 2 ^ (52 - k)" by (simp only: pow2_neg pow2_nat)
    then have "(of_nat n :: rat) / pow2 (int k - 52) = of_int (int n * 2 ^ (52 - k))" by simp
    then show ?thesis by blast
  next
    case False
    with k53 have k: "k = 53" by simp
    with lo n have nn: "n = 2 ^ 53" by simp
    have "pow2 (int k - 52) = 2" using k by (simp add: pow2_def)
    then have "(of_nat n :: rat) / pow2 (int k - 52) = of_int (2 ^ 52)" by (simp add: nn)
    then show ?thesis by blast
  qed
  then obtain m :: int where m: "(of_nat n :: rat) / pow2 (int k - 52) = of_int m" by blast
  have r: "of_int (roundTiesToEven (of_nat n / pow2 (int k - 52))) * pow2 (int k - 52) =
      (of_nat n :: rat)"
  proof -
    have nz: "pow2 (int k - 52) \<noteq> 0" by (metis pow2_pos less_irrefl)
    show ?thesis unfolding m roundTiesToEven_of_int unfolding m [symmetric] using nz by simp
  qed
  have "(of_nat n :: rat) \<le> of_nat (2 ^ 53)" using n by (simp only: of_nat_le_iff)
  also have "\<dots> < 2 ^ 1024" by simp
  also have "\<dots> = pow2 1024" by (simp add: pow2_def)
  finally have lt: "\<not> pow2 1024 \<le> (of_nat n :: rat)" by simp
  have "roundPositive (of_nat n) = Some (of_nat n)"
    using lt by (simp add: roundPositive_def Let_def e r)
  then show ?thesis using pos by (simp add: numberValue_def)
qed

lemma digit_not_white: "isDigit c \<Longrightarrow> \<not> isWhiteSpace c"
  by (auto simp: isDigit_def isWhiteSpace_def)

lemma dropWhile_id: "xs \<noteq> [] \<Longrightarrow> \<not> P (hd xs) \<Longrightarrow> dropWhile P xs = xs"
  by (cases xs) auto

lemma trim_digits:
  assumes "list_all isDigit ds"
  shows "trim ds = ds"
proof (cases "ds = []")
  case True
  then show ?thesis by (simp add: trim_def)
next
  case False
  from False assms have "isDigit (hd ds)" by (cases ds) auto
  then have "\<not> isWhiteSpace (hd ds)" by (rule digit_not_white)
  with False have a: "dropWhile isWhiteSpace ds = ds" by (rule dropWhile_id)
  from False assms have "isDigit (last ds)"
    by (metis last_in_set list_all_iff)
  then have "\<not> isWhiteSpace (last ds)" by (rule digit_not_white)
  then have "\<not> isWhiteSpace (hd (rev ds))" using False by (simp add: hd_rev)
  moreover have "rev ds \<noteq> []" using False by simp
  ultimately have "dropWhile isWhiteSpace (rev ds) = rev ds" by (rule dropWhile_id [rotated])
  with a show ?thesis by (simp add: trim_def)
qed

lemma jsNumber_safe_integer:
  assumes ne: "ds \<noteq> []" and d: "list_all isDigit ds" and v: "digitsMV 10 ds \<le> 2 ^ 53"
  shows "jsNumber ds = Num (of_nat (digitsMV 10 ds))"
proof -
  from ne obtain c cs where ds: "ds = c # cs" by (cases ds) auto
  with d have c: "isDigit c" by simp
  have nd: "nonDecimalIntegerLiteral ds = None"
  proof (cases cs)
    case Nil
    then show ?thesis by (simp add: nonDecimalIntegerLiteral_def ds)
  next
    case (Cons c1 rest)
    with d ds have "isDigit c1" by simp
    then show ?thesis
      by (simp add: nonDecimalIntegerLiteral_def ds Cons isDigit_def)
  qed
  have inf: "ds \<noteq> js ''Infinity''" using c by (auto simp: ds js_def isDigit_def)
  have tw: "takeWhile isDigit ds = ds" "dropWhile isDigit ds = []"
    using d by (simp_all add: list_all_iff)
  have lit: "strUnsignedDecimalLiteral ds = Some (MV (of_nat (digitsMV 10 ds)))"
    using inf ne by (simp add: strUnsignedDecimalLiteral_def Let_def tw exponentPart_def digitsMV_def)
  have sg: "hd ds \<noteq> 45" "hd ds \<noteq> 43" using c by (auto simp: ds isDigit_def)
  show ?thesis
    using ne sg
    by (simp add: jsNumber_def Let_def trim_digits [OF d] nd lit numberValue_safe_integer [OF v])
qed

section \<open>Properties of the dataset model\<close>













lemma sortedLessons_map:
  "sortedLessons B ids = Inr ls \<Longrightarrow>
     map Some ls = map (\<lambda>k. map_option (\<lambda>v. v\<lparr>lines := sortLines (lines v)\<rparr>) (map_of B k)) ids"
  by (induction ids arbitrary: ls) (auto split: option.splits sum.splits)





















section \<open>Properties of the player\<close>

lemma exclusive_iff:
  "exclusive s \<longleftrightarrow>
     (\<forall>a<length (audios s). \<not> paused (audios s ! a) \<longrightarrow> audio (currentlyPlaying s) = Some a) \<and>
     (\<forall>b<length (buttons s). is_playing (buttons s ! b) \<longrightarrow> btn (currentlyPlaying s) = Some b)"
  by (auto simp: exclusive_def playingClips_def playingButtons_def list_all_iff)

lemma quiet_iff:
  "quiet s \<longleftrightarrow>
     (\<forall>a<length (audios s). paused (audios s ! a)) \<and>
     (\<forall>b<length (buttons s). \<not> is_playing (buttons s ! b)) \<and>
     currentlyPlaying s = \<lparr>audio = None, btn = None\<rparr>"
  by (auto simp: quiet_def playingClips_def playingButtons_def filter_empty_conv)

lemma quiet_exclusive: "quiet s \<Longrightarrow> exclusive s"
  by (simp add: quiet_iff exclusive_iff)

text \<open>Fields of the elementary updates.\<close>

lemma updAudio_fields [simp]:
  "audios (updAudio a f s) = (audios s)[a := f (audioAt s a)]"
  "currentlyPlaying (updAudio a f s) = currentlyPlaying s"
  "audioCache (updAudio a f s) = audioCache s"
  "lessonPlayback (updAudio a f s) = lessonPlayback s"
  "renderToken (updAudio a f s) = renderToken s"
  "buttons (updAudio a f s) = buttons s"
  "lessonButtons (updAudio a f s) = lessonButtons s"
  "passes (updAudio a f s) = passes s"
  "runs (updAudio a f s) = runs s"
  "playPromises (updAudio a f s) = playPromises s"
  "history (updAudio a f s) = history s"
  by (simp_all add: updAudio_def)

lemma updButton_fields [simp]:
  "buttons (updButton b f s) = (buttons s)[b := f (buttons s ! b)]"
  "currentlyPlaying (updButton b f s) = currentlyPlaying s"
  "audioCache (updButton b f s) = audioCache s"
  "audios (updButton b f s) = audios s"
  "lessonPlayback (updButton b f s) = lessonPlayback s"
  "renderToken (updButton b f s) = renderToken s"
  "lessonButtons (updButton b f s) = lessonButtons s"
  "passes (updButton b f s) = passes s"
  "runs (updButton b f s) = runs s"
  "playPromises (updButton b f s) = playPromises s"
  "history (updButton b f s) = history s"
  by (simp_all add: updButton_def)

lemma updLessonButton_fields [simp]:
  "lessonButtons (updLessonButton b f s) = (lessonButtons s)[b := f (lessonButtons s ! b)]"
  "currentlyPlaying (updLessonButton b f s) = currentlyPlaying s"
  "audioCache (updLessonButton b f s) = audioCache s"
  "audios (updLessonButton b f s) = audios s"
  "lessonPlayback (updLessonButton b f s) = lessonPlayback s"
  "renderToken (updLessonButton b f s) = renderToken s"
  "buttons (updLessonButton b f s) = buttons s"
  "passes (updLessonButton b f s) = passes s"
  "runs (updLessonButton b f s) = runs s"
  "playPromises (updLessonButton b f s) = playPromises s"
  "history (updLessonButton b f s) = history s"
  by (simp_all add: updLessonButton_def)

lemma updRun_fields [simp]:
  "runs (updRun r f s) = (runs s)[r := f (runs s ! r)]"
  "currentlyPlaying (updRun r f s) = currentlyPlaying s"
  "audioCache (updRun r f s) = audioCache s"
  "audios (updRun r f s) = audios s"
  "lessonPlayback (updRun r f s) = lessonPlayback s"
  "renderToken (updRun r f s) = renderToken s"
  "buttons (updRun r f s) = buttons s"
  "lessonButtons (updRun r f s) = lessonButtons s"
  "passes (updRun r f s) = passes s"
  "playPromises (updRun r f s) = playPromises s"
  "history (updRun r f s) = history s"
  by (simp_all add: updRun_def)

lemma logObs_fields [simp]:
  "history (logObs x s) = history s @ [x]"
  "currentlyPlaying (logObs x s) = currentlyPlaying s"
  "audioCache (logObs x s) = audioCache s"
  "audios (logObs x s) = audios s"
  "lessonPlayback (logObs x s) = lessonPlayback s"
  "renderToken (logObs x s) = renderToken s"
  "buttons (logObs x s) = buttons s"
  "lessonButtons (logObs x s) = lessonButtons s"
  "passes (logObs x s) = passes s"
  "runs (logObs x s) = runs s"
  "playPromises (logObs x s) = playPromises s"
  by (simp_all add: logObs_def)

lemma audioAt_updAudio [simp]:
  "audioAt (updAudio a f s) a' =
     (if a' = a \<and> a < length (audios s) then f (audioAt s a) else audioAt s a')"
  by (simp add: audioAt_def)

lemma audioAt_other [simp]:
  "audioAt (updButton b f s) a = audioAt s a"
  "audioAt (updLessonButton b g s) a = audioAt s a"
  "audioAt (updRun r h s) a = audioAt s a"
  "audioAt (logObs x s) a = audioAt s a"
  by (simp_all add: audioAt_def)

text \<open>Stopping.\<close>

lemma stopCurrentAudio_fields [simp]:
  "currentlyPlaying (stopCurrentAudio s) = \<lparr>audio = None, btn = None\<rparr>"
  "audioCache (stopCurrentAudio s) = audioCache s"
  "lessonPlayback (stopCurrentAudio s) = lessonPlayback s"
  "renderToken (stopCurrentAudio s) = renderToken s"
  "lessonButtons (stopCurrentAudio s) = lessonButtons s"
  "passes (stopCurrentAudio s) = passes s"
  "runs (stopCurrentAudio s) = runs s"
  "playPromises (stopCurrentAudio s) = playPromises s"
  "history (stopCurrentAudio s) = history s"
  "length (audios (stopCurrentAudio s)) = length (audios s)"
  "length (buttons (stopCurrentAudio s)) = length (buttons s)"
  by (simp_all add: stopCurrentAudio_def Let_def split: option.splits)

lemma stopCurrentAudio_audios:
  "audios (stopCurrentAudio s) =
     (case audio (currentlyPlaying s) of
        None \<Rightarrow> audios s
      | Some a \<Rightarrow> (audios s)[a := (audioAt s a)\<lparr>paused := True, currentTime := 0\<rparr>])"
  by (simp add: stopCurrentAudio_def Let_def split: option.splits)

lemma stopCurrentAudio_buttons:
  "buttons (stopCurrentAudio s) =
     (case btn (currentlyPlaying s) of
        None \<Rightarrow> buttons s
      | Some b \<Rightarrow> (buttons s)[b := (buttons s ! b)\<lparr>is_playing := False, textContent := playSymbol\<rparr>])"
  by (simp add: stopCurrentAudio_def Let_def split: option.splits)

lemma stopCurrentAudio_paused:
  assumes "exclusive s" and "a < length (audios s)"
  shows "paused (audios (stopCurrentAudio s) ! a)"
proof (cases "audio (currentlyPlaying s)")
  case None
  with assms show ?thesis by (auto simp: stopCurrentAudio_audios exclusive_iff)
next
  case (Some c)
  with assms show ?thesis
    by (cases "a = c") (auto simp: stopCurrentAudio_audios exclusive_iff)
qed

lemma stopCurrentAudio_not_playing:
  assumes "exclusive s" and "b < length (buttons s)"
  shows "\<not> is_playing (buttons (stopCurrentAudio s) ! b)"
proof (cases "btn (currentlyPlaying s)")
  case None
  with assms show ?thesis by (auto simp: stopCurrentAudio_buttons exclusive_iff)
next
  case (Some c)
  with assms show ?thesis
    by (cases "b = c") (auto simp: stopCurrentAudio_buttons exclusive_iff)
qed

lemma stopCurrentAudio_quiet: "exclusive s \<Longrightarrow> quiet (stopCurrentAudio s)"
  by (simp add: quiet_iff stopCurrentAudio_paused stopCurrentAudio_not_playing)

lemma nth_upd: "j < length xs \<Longrightarrow> xs[i := x] ! j = (if i = j then x else xs ! j)"
  by (cases "i = j") auto

lemma exclusive_frame:
  assumes "map paused (audios s') = map paused (audios s)"
    and "map is_playing (buttons s') = map is_playing (buttons s)"
    and "currentlyPlaying s' = currentlyPlaying s"
  shows "exclusive s' = exclusive s"
proof -
  have la: "length (audios s') = length (audios s)" using assms(1) by (metis length_map)
  have lb: "length (buttons s') = length (buttons s)" using assms(2) by (metis length_map)
  have pa: "paused (audios s' ! a) = paused (audios s ! a)" if "a < length (audios s)" for a
    using that la assms(1) by (metis nth_map)
  have pb: "is_playing (buttons s' ! b) = is_playing (buttons s ! b)"
    if "b < length (buttons s)" for b
    using that lb assms(2) by (metis nth_map)
  show ?thesis by (simp add: exclusive_iff la lb assms(3) pa pb)
qed

lemma quiet_frame:
  assumes "map paused (audios s') = map paused (audios s)"
    and "map is_playing (buttons s') = map is_playing (buttons s)"
    and "currentlyPlaying s' = currentlyPlaying s"
  shows "quiet s' = quiet s"
proof -
  have la: "length (audios s') = length (audios s)" using assms(1) by (metis length_map)
  have lb: "length (buttons s') = length (buttons s)" using assms(2) by (metis length_map)
  have pa: "paused (audios s' ! a) = paused (audios s ! a)" if "a < length (audios s)" for a
    using that la assms(1) by (metis nth_map)
  have pb: "is_playing (buttons s' ! b) = is_playing (buttons s ! b)"
    if "b < length (buttons s)" for b
    using that lb assms(2) by (metis nth_map)
  show ?thesis by (simp add: quiet_iff la lb assms(3) pa pb)
qed

lemma map_paused_upd:
  "paused (f (audioAt s a)) = paused (audioAt s a) \<Longrightarrow>
     map paused ((audios s)[a := f (audioAt s a)]) = map paused (audios s)"
  by (auto simp: list_eq_iff_nth_eq nth_upd audioAt_def)

lemma exclusive_updAudio:
  "paused (f (audioAt s a)) = paused (audioAt s a) \<Longrightarrow>
     exclusive (updAudio a f s) = exclusive s"
  by (rule exclusive_frame) (simp_all add: map_paused_upd)

lemma quiet_updAudio:
  "paused (f (audioAt s a)) = paused (audioAt s a) \<Longrightarrow> quiet (updAudio a f s) = quiet s"
  by (rule quiet_frame) (simp_all add: map_paused_upd)

lemma map_is_playing_upd:
  "is_playing (f (buttons s ! b)) = is_playing (buttons s ! b) \<Longrightarrow>
     map is_playing ((buttons s)[b := f (buttons s ! b)]) = map is_playing (buttons s)"
  by (auto simp: list_eq_iff_nth_eq nth_upd)

lemma exclusive_updButton:
  "is_playing (f (buttons s ! b)) = is_playing (buttons s ! b) \<Longrightarrow>
     exclusive (updButton b f s) = exclusive s"
  by (rule exclusive_frame) (simp_all add: map_is_playing_upd)

lemma quiet_updButton:
  "is_playing (f (buttons s ! b)) = is_playing (buttons s ! b) \<Longrightarrow>
     quiet (updButton b f s) = quiet s"
  by (rule quiet_frame) (simp_all add: map_is_playing_upd)

lemma exclusive_neutral [simp]:
  "exclusive (updLessonButton b g s) = exclusive s"
  "exclusive (updRun r h s) = exclusive s"
  "exclusive (logObs x s) = exclusive s"
  "exclusive (s\<lparr>playPromises := pp\<rparr>) = exclusive s"
  "exclusive (s\<lparr>lessonPlayback := lp\<rparr>) = exclusive s"
  "exclusive (s\<lparr>runs := rs\<rparr>) = exclusive s"
  "exclusive (s\<lparr>passes := ps\<rparr>) = exclusive s"
  "exclusive (s\<lparr>renderToken := rt\<rparr>) = exclusive s"
  "exclusive (s\<lparr>lessonButtons := lbs\<rparr>) = exclusive s"
  "exclusive (s\<lparr>history := hs\<rparr>) = exclusive s"
  "exclusive (s\<lparr>audioCache := ac\<rparr>) = exclusive s"
  by (simp_all add: exclusive_iff)

lemma quiet_neutral [simp]:
  "quiet (updLessonButton b g s) = quiet s"
  "quiet (updRun r h s) = quiet s"
  "quiet (logObs x s) = quiet s"
  "quiet (s\<lparr>playPromises := pp\<rparr>) = quiet s"
  "quiet (s\<lparr>lessonPlayback := lp\<rparr>) = quiet s"
  "quiet (s\<lparr>runs := rs\<rparr>) = quiet s"
  "quiet (s\<lparr>passes := ps\<rparr>) = quiet s"
  "quiet (s\<lparr>renderToken := rt\<rparr>) = quiet s"
  "quiet (s\<lparr>lessonButtons := lbs\<rparr>) = quiet s"
  "quiet (s\<lparr>history := hs\<rparr>) = quiet s"
  "quiet (s\<lparr>audioCache := ac\<rparr>) = quiet s"
  by (simp_all add: quiet_iff)

lemma exclusive_new_audio:
  "paused x \<Longrightarrow> exclusive (s\<lparr>audios := audios s @ [x]\<rparr>) = exclusive s"
  by (auto simp: exclusive_iff nth_append less_Suc_eq)

lemma quiet_new_audio:
  "paused x \<Longrightarrow> quiet (s\<lparr>audios := audios s @ [x]\<rparr>) = quiet s"
  by (auto simp: quiet_iff nth_append less_Suc_eq)

lemma exclusive_new_button:
  "\<not> is_playing x \<Longrightarrow> exclusive (s\<lparr>buttons := buttons s @ [x]\<rparr>) = exclusive s"
  by (auto simp: exclusive_iff nth_append less_Suc_eq)

lemma quiet_new_button:
  "\<not> is_playing x \<Longrightarrow> quiet (s\<lparr>buttons := buttons s @ [x]\<rparr>) = quiet s"
  by (auto simp: quiet_iff nth_append less_Suc_eq)

lemma getOrCreateAudio_exclusive:
  "exclusive (snd (getOrCreateAudio url s)) = exclusive s"
  by (simp add: getOrCreateAudio_def exclusive_new_audio newAudio_def split: option.splits)

lemma getOrCreateAudio_quiet:
  "quiet (snd (getOrCreateAudio url s)) = quiet s"
  by (simp add: getOrCreateAudio_def quiet_new_audio newAudio_def split: option.splits)

text \<open>Binding a new pair on a quiet player, then starting it.\<close>

lemma install_exclusive:
  assumes q: "quiet s"
    and a: "\<forall>a'<length (audios s'). a' \<noteq> a \<longrightarrow> paused (audios s' ! a')"
    and b: "\<forall>b'<length (buttons s'). is_playing (buttons s' ! b') \<longrightarrow> ob = Some b'"
    and c: "currentlyPlaying s' = \<lparr>audio = Some a, btn = ob\<rparr>"
  shows "exclusive s'"
  using a b c by (auto simp: exclusive_iff)

lemma stopLessonPlayback_quiet: "exclusive s \<Longrightarrow> quiet (stopLessonPlayback s)"
  by (simp add: stopLessonPlayback_def Let_def stopCurrentAudio_quiet split: option.splits)

lemma sentenceClickCatch_quiet: "exclusive s \<Longrightarrow> quiet (sentenceClickCatch a s)"
  by (simp add: sentenceClickCatch_def stopCurrentAudio_quiet exclusive_updAudio)

lemma wiredEnded_exclusive: "exclusive s \<Longrightarrow> exclusive (wiredEnded a s)"
  by (simp add: wiredEnded_def stopCurrentAudio_quiet quiet_exclusive)

lemma wiredError_exclusive: "exclusive s \<Longrightarrow> exclusive (wiredError a s)"
  by (simp add: wiredError_def Let_def stopCurrentAudio_quiet quiet_exclusive exclusive_updAudio)

lemma lessonFinally_exclusive: "exclusive s \<Longrightarrow> exclusive (lessonFinally rid s)"
  by (simp add: lessonFinally_def Let_def stopCurrentAudio_quiet quiet_exclusive)

lemma settleRun_exclusive: "exclusive s \<Longrightarrow> exclusive (settleRun ph rid s)"
  by (simp add: settleRun_def lessonFinally_exclusive)

lemma cleanup_exclusive: "exclusive (cleanup rid i a s) = exclusive s"
  by (simp add: cleanup_def exclusive_updAudio)

lemma audio_play_fields [simp]:
  "currentlyPlaying (audio_play st a s) = currentlyPlaying s"
  "buttons (audio_play st a s) = buttons s"
  "lessonPlayback (audio_play st a s) = lessonPlayback s"
  "runs (audio_play st a s) = runs s"
  "passes (audio_play st a s) = passes s"
  "history (audio_play st a s) = history s"
  "playPromises (audio_play st a s) = playPromises s"
  "lessonButtons (audio_play st a s) = lessonButtons s"
  "renderToken (audio_play st a s) = renderToken s"
  "audioCache (audio_play st a s) = audioCache s"
  "length (audios (audio_play st a s)) = length (audios s)"
  by (simp_all add: audio_play_def)

lemma audio_play_other:
  "a' \<noteq> a \<Longrightarrow> audios (audio_play st a s) ! a' = audios s ! a'"
  by (simp add: audio_play_def)

lemma sentenceClickManual_exclusive:
  assumes "exclusive s"
  shows "exclusive (sentenceClickManual b a st s)"
proof -
  define s2 where "s2 = (if audio (currentlyPlaying s) \<noteq> None \<and>
      audio (currentlyPlaying s) \<noteq> Some a then stopCurrentAudio s else s)"
  have e2: "exclusive s2"
    using assms by (simp add: s2_def stopCurrentAudio_quiet quiet_exclusive)
  then have q3: "quiet (stopCurrentAudio s2)" by (rule stopCurrentAudio_quiet)
  let ?s3 = "stopCurrentAudio s2"
  let ?s' = "sentenceClickManual b a st s"
  have eq: "?s' =
      (if audio (currentlyPlaying s2) = Some a \<and> \<not> paused (audioAt s2 a) then ?s3
       else (audio_play st a
              ((updButton b (\<lambda>n. n\<lparr>is_playing := True, textContent := pauseSymbol\<rparr>) ?s3)
                 \<lparr>currentlyPlaying := \<lparr>audio = Some a, btn = Some b\<rparr>\<rparr>))
            \<lparr>playPromises :=
               playPromises (audio_play st a
                 ((updButton b (\<lambda>n. n\<lparr>is_playing := True, textContent := pauseSymbol\<rparr>) ?s3)
                    \<lparr>currentlyPlaying := \<lparr>audio = Some a, btn = Some b\<rparr>\<rparr>))
               @ [ManualPlay a]\<rparr>)"
    by (simp only: sentenceClickManual_def s2_def Let_def)
  show ?thesis
  proof (cases "audio (currentlyPlaying s2) = Some a \<and> \<not> paused (audioAt s2 a)")
    case True
    then show ?thesis using q3 by (simp add: eq quiet_exclusive)
  next
    case False
    then have s': "?s' = (audio_play st a
        ((updButton b (\<lambda>n. n\<lparr>is_playing := True, textContent := pauseSymbol\<rparr>) ?s3)
           \<lparr>currentlyPlaying := \<lparr>audio = Some a, btn = Some b\<rparr>\<rparr>))
        \<lparr>playPromises := playPromises ?s3 @ [ManualPlay a]\<rparr>"
      unfolding eq by auto
    show ?thesis
    proof (rule install_exclusive [OF q3, where a = a and ob = "Some b"])
      show "\<forall>a'<length (audios ?s'). a' \<noteq> a \<longrightarrow> paused (audios ?s' ! a')"
        using q3 unfolding s' by (simp add: audio_play_other quiet_iff)
      show "\<forall>b'<length (buttons ?s'). is_playing (buttons ?s' ! b') \<longrightarrow> Some b = Some b'"
        using q3 unfolding s' by (auto simp: quiet_iff nth_upd split: if_splits)
      show "currentlyPlaying ?s' = \<lparr>audio = Some a, btn = Some b\<rparr>"
        unfolding s' by simp
    qed
  qed
qed

lemma sentenceClick_exclusive: "exclusive s \<Longrightarrow> exclusive (sentenceClick b a st s)"
  by (simp add: sentenceClick_def Let_def sentenceClickManual_exclusive
      stopLessonPlayback_quiet quiet_exclusive)

lemma playOne_exclusive:
  assumes "exclusive s"
  shows "exclusive (playOne rid i url ob st s)"
proof -
  obtain a s1 where g: "getOrCreateAudio url s = (a, s1)" by (cases "getOrCreateAudio url s")
  have "exclusive s1" using getOrCreateAudio_exclusive [of url s] g assms by simp
  then have q: "quiet (stopCurrentAudio s1)" by (rule stopCurrentAudio_quiet)
  let ?s2 = "stopCurrentAudio s1"
  let ?s3 = "case ob of None \<Rightarrow> ?s2
     | Some b \<Rightarrow> updButton b (\<lambda>n. n\<lparr>is_playing := True, textContent := pauseSymbol\<rparr>) ?s2"
  let ?s' = "playOne rid i url ob st s"
  have s': "?s' = logObs (ClipStarted rid i)
      ((audio_play st a
         (updAudio a (\<lambda>x. x\<lparr>listeners := listeners x @ [PlayOneL rid i]\<rparr>)
           (updAudio a (\<lambda>x. x\<lparr>currentTime := 0\<rparr>)
             (?s3\<lparr>currentlyPlaying := \<lparr>audio = Some a, btn = ob\<rparr>\<rparr>))))
        \<lparr>playPromises := playPromises ?s2 @ [SeqPlay rid i a]\<rparr>)"
    by (cases ob) (simp_all add: playOne_def g Let_def)
  have a3: "audios ?s3 = audios ?s2" and l3: "length (buttons ?s3) = length (buttons ?s2)"
    by (cases ob; simp)+
  show ?thesis
  proof (rule install_exclusive [OF q, where a = a and ob = ob])
    show "\<forall>a'<length (audios ?s'). a' \<noteq> a \<longrightarrow> paused (audios ?s' ! a')"
      using q unfolding s' by (simp add: audio_play_other quiet_iff a3)
    show "\<forall>b'<length (buttons ?s'). is_playing (buttons ?s' ! b') \<longrightarrow> ob = Some b'"
      using q unfolding s' by (cases ob) (auto simp: quiet_iff nth_upd split: if_splits)
    show "currentlyPlaying ?s' = \<lparr>audio = Some a, btn = ob\<rparr>"
      unfolding s' by simp
  qed
qed

lemma loopHead_exclusive: "exclusive s \<Longrightarrow> exclusive (loopHead rid st s)"
  by (simp add: loopHead_def Let_def settleRun_exclusive playOne_exclusive)

lemma afterClip_exclusive: "exclusive s \<Longrightarrow> exclusive (afterClip rid s)"
  by (simp add: afterClip_def Let_def settleRun_exclusive)

lemma afterSleep_exclusive: "exclusive s \<Longrightarrow> exclusive (afterSleep rid ms st s)"
  by (simp add: afterSleep_def Let_def loopHead_exclusive)

lemma playLessonInOrder_exclusive:
  "exclusive s \<Longrightarrow> exclusive (playLessonInOrder us ref tok caller st s)"
  by (simp add: playLessonInOrder_def Let_def loopHead_exclusive)

lemma lessonClick_exclusive: "exclusive s \<Longrightarrow> exclusive (lessonClick b p st s)"
  by (simp add: lessonClick_def Let_def playLessonInOrder_exclusive
      stopLessonPlayback_quiet quiet_exclusive)

lemma onEnded_exclusive: "exclusive s \<Longrightarrow> exclusive (onEnded rid i a s)"
  by (simp add: onEnded_def Let_def afterClip_exclusive cleanup_exclusive)

lemma onError_exclusive: "exclusive s \<Longrightarrow> exclusive (onError rid i a s)"
  by (simp add: onError_def Let_def settleRun_exclusive cleanup_exclusive)

lemma playOneCatch_exclusive: "exclusive s \<Longrightarrow> exclusive (playOneCatch rid i a s)"
  by (simp add: playOneCatch_def Let_def settleRun_exclusive cleanup_exclusive)

lemma fireEnded_exclusive: "exclusive s \<Longrightarrow> exclusive (fireEnded a s l)"
  by (cases l) (simp_all add: fireEnded_def wiredEnded_exclusive onEnded_exclusive)

lemma fireError_exclusive: "exclusive s \<Longrightarrow> exclusive (fireError a s l)"
  by (cases l) (simp_all add: fireError_def wiredError_exclusive onError_exclusive)

lemma foldl_preserves:
  "(\<And>s l. P s \<Longrightarrow> P (f s l)) \<Longrightarrow> P s \<Longrightarrow> P (foldl f s ls)"
  by (induction ls arbitrary: s) auto

lemma render_exclusive: "exclusive (render us s) = exclusive s"
  by (simp add: render_def exclusive_iff)

lemma attachAudioButton_exclusive:
  "exclusive s \<Longrightarrow> exclusive (attachAudioButton b url s)"
proof -
  assume e: "exclusive s"
  obtain a s1 where g: "getOrCreateAudio (Some url) s = (a, s1)"
    by (cases "getOrCreateAudio (Some url) s")
  have "exclusive s1" using getOrCreateAudio_exclusive [of "Some url" s] g e by simp
  then show ?thesis
    by (simp add: attachAudioButton_def g Let_def exclusive_updAudio exclusive_updButton)
qed

lemma revealButton_exclusive: "exclusive s \<Longrightarrow> exclusive (revealButton p i ex s)"
  by (simp add: revealButton_def Let_def attachAudioButton_exclusive exclusive_new_button
      split: option.splits)

lemma offerLesson_exclusive: "exclusive s \<Longrightarrow> exclusive (offerLesson p rs s)"
  by (simp add: offerLesson_def Let_def)

lemma dropPromise_exclusive: "exclusive (dropPromise n s) = exclusive s"
  by (simp add: dropPromise_def)

lemma step_exclusive: "exclusive s \<Longrightarrow> exclusive (step e s)"
proof (cases e)
  case (UIChange us)
  assume "exclusive s"
  then show ?thesis
    by (simp add: UIChange step_def render_exclusive stopLessonPlayback_quiet quiet_exclusive)
next
  case (AudioEnded a)
  assume e: "exclusive s"
  then have "exclusive (updAudio a (\<lambda>x. x\<lparr>paused := True\<rparr>) s)"
    by (auto simp: exclusive_iff nth_upd)
  then show ?thesis
    by (simp add: AudioEnded step_def Let_def foldl_preserves [where P = exclusive]
        fireEnded_exclusive e)
next
  case (AudioError a)
  assume e: "exclusive s"
  then show ?thesis
    by (simp add: AudioError step_def foldl_preserves [where P = exclusive] fireError_exclusive)
next
  case (PlayRejected n)
  assume e: "exclusive s"
  then show ?thesis
    by (simp add: PlayRejected step_def dropPromise_exclusive sentenceClickCatch_quiet
        quiet_exclusive playOneCatch_exclusive split: pending.splits)
next
  case (TimerFired rid st)
  assume e: "exclusive s"
  then show ?thesis
    by (simp add: TimerFired step_def afterSleep_exclusive split: phase.splits)
qed (simp_all add: step_def revealButton_exclusive offerLesson_exclusive sentenceClick_exclusive
       lessonClick_exclusive dropPromise_exclusive exclusive_updAudio split: option.splits)

lemma initial_exclusive: "exclusive initial"
  by (simp add: exclusive_iff initial_def)

lemma exec_exclusive: "exclusive s \<Longrightarrow> exclusive (exec evs s)"
  unfolding exec_def by (induction evs arbitrary: s) (simp_all add: step_exclusive)

lemma length_le_one:
  assumes "distinct xs" and "\<forall>x\<in>set xs. P x" and "\<And>x y. P x \<Longrightarrow> P y \<Longrightarrow> x = y"
  shows "length xs \<le> 1"
proof (cases xs)
  case Nil
  then show ?thesis by simp
next
  case (Cons x ys)
  have "ys = []"
  proof (cases ys)
    case Nil
    then show ?thesis .
  next
    case (Cons y zs)
    with \<open>xs = x # ys\<close> assms(1) have "x \<noteq> y" by auto
    moreover from \<open>xs = x # ys\<close> Cons assms(2) have "P x" "P y" by auto
    ultimately show ?thesis using assms(3) by blast
  qed
  with Cons show ?thesis by simp
qed

lemma exclusive_sessions:
  assumes "exclusive s"
  shows "length (playingClips s) \<le> 1 \<and> length (playingButtons s) \<le> 1 \<and>
         (\<forall>a\<in>set (playingClips s). audio (currentlyPlaying s) = Some a) \<and>
         (\<forall>b\<in>set (playingButtons s). btn (currentlyPlaying s) = Some b)"
proof -
  from assms have a: "\<forall>a\<in>set (playingClips s). audio (currentlyPlaying s) = Some a"
    and b: "\<forall>b\<in>set (playingButtons s). btn (currentlyPlaying s) = Some b"
    by (simp_all add: exclusive_def list_all_iff)
  have da: "distinct (playingClips s)" and db: "distinct (playingButtons s)"
    by (simp_all add: playingClips_def playingButtons_def)
  have "length (playingClips s) \<le> 1"
    using da a by (rule length_le_one) simp
  moreover have "length (playingButtons s) \<le> 1"
    using db b by (rule length_le_one) simp
  ultimately show ?thesis using a b by blast
qed

lemma sentenceClickManual_slot:
  "currentlyPlaying (sentenceClickManual b a st s) = \<lparr>audio = None, btn = None\<rparr> \<or>
   currentlyPlaying (sentenceClickManual b a st s) = \<lparr>audio = Some a, btn = Some b\<rparr>"
  by (simp add: sentenceClickManual_def Let_def)

lemma sentenceClick_slot:
  "currentlyPlaying (sentenceClick b a st s) = \<lparr>audio = None, btn = None\<rparr> \<or>
   currentlyPlaying (sentenceClick b a st s) = \<lparr>audio = Some a, btn = Some b\<rparr>"
  unfolding sentenceClick_def Let_def by (rule sentenceClickManual_slot)

lemma playOne_slot:
  "currentlyPlaying (playOne rid i url ob st s) =
     \<lparr>audio = Some (fst (getOrCreateAudio url s)), btn = ob\<rparr>"
  by (cases "getOrCreateAudio url s") (simp add: playOne_def Let_def)

lemmas player_eval =
  exec_def step_def initial_def render_def revealButton_def offerLesson_def attachAudioButton_def
  getOrCreateAudio_def stopLessonPlayback_def stopCurrentAudio_def sentenceClick_def
  sentenceClickManual_def sentenceClickCatch_def audio_play_def updAudio_def updButton_def
  updLessonButton_def updRun_def logObs_def audioAt_def newAudio_def lessonClick_def
  playLessonInOrder_def loopHead_def afterClip_def afterSleep_def playOne_def cleanup_def
  awaiting_def lessonFinally_def settleRun_def onEnded_def onError_def playOneCatch_def
  fireEnded_def fireError_def wiredEnded_def wiredError_def dropPromise_def btnAt_def
  playingClips_def playingButtons_def falsy_def Let_def


text \<open>
  \<^bold>\<open>C1.\<close> In every state the program can reach, whatever events arrive in whatever
  order, at most one clip is playing and at most one sentence button shows the playing
  state, and they are the pair held in \<^verbatim>\<open>currentlyPlaying\<close>. Both operations that bind a
  new pair, the manual click handler and the sequencer's \<^verbatim>\<open>playOne\<close>, stop the previous
  pair first: after either of them nothing but the newly bound clip and button can be
  playing.
\<close>

theorem at_most_one_session:
  assumes "s = exec evs initial"
  shows "length (playingClips s) \<le> 1 \<and> length (playingButtons s) \<le> 1 \<and>
         (\<forall>a\<in>set (playingClips s). audio (currentlyPlaying s) = Some a) \<and>
         (\<forall>b\<in>set (playingButtons s). btn (currentlyPlaying s) = Some b) \<and>
         (\<forall>b a st. set (playingClips (sentenceClick b a st s)) \<subseteq> {a} \<and>
                    set (playingButtons (sentenceClick b a st s)) \<subseteq> {b}) \<and>
         (\<forall>rid i url ob st.
            set (playingClips (playOne rid i url ob st s)) \<subseteq> {fst (getOrCreateAudio url s)} \<and>
            set (playingButtons (playOne rid i url ob st s)) \<subseteq> set_option ob)"
proof -
  have e: "exclusive s" unfolding assms by (rule exec_exclusive [OF initial_exclusive])
  have c: "set (playingClips (sentenceClick b a st s)) \<subseteq> {a} \<and>
      set (playingButtons (sentenceClick b a st s)) \<subseteq> {b}" for b a st
    using exclusive_sessions [OF sentenceClick_exclusive [OF e, of b a st]]
      sentenceClick_slot [of b a st s] by auto
  have p: "set (playingClips (playOne rid i url ob st s)) \<subseteq> {fst (getOrCreateAudio url s)} \<and>
      set (playingButtons (playOne rid i url ob st s)) \<subseteq> set_option ob" for rid i url ob st
    using exclusive_sessions [OF playOne_exclusive [OF e, of rid i url ob st]]
    by (auto simp: playOne_slot)
  from exclusive_sessions [OF e] c p show ?thesis by blast
qed

theorem at_most_one_session_witness:
  "playingClips
     (exec [UIChange [Some (js ''a''), Some (js ''b'')], ProbeResolved 0 0 True,
            ProbeResolved 0 1 True, ClickSentence 0 True, ClickSentence 1 True] initial) = [1] \<and>
   audio (currentlyPlaying
     (exec [UIChange [Some (js ''a''), Some (js ''b'')], ProbeResolved 0 0 True,
            ProbeResolved 0 1 True, ClickSentence 0 True, ClickSentence 1 True] initial)) = Some 1"
proof -
  let ?s = "exec [UIChange [Some (js ''a''), Some (js ''b'')], ProbeResolved 0 0 True,
            ProbeResolved 0 1 True, ClickSentence 0 True, ClickSentence 1 True] initial"
  have p: "playingClips ?s = [1]" by (simp add: player_eval js_def)
  from at_most_one_session [OF refl, of "[UIChange [Some (js ''a''), Some (js ''b'')],
      ProbeResolved 0 0 True, ProbeResolved 0 1 True, ClickSentence 0 True,
      ClickSentence 1 True]"]
  have "\<forall>a\<in>set (playingClips ?s). audio (currentlyPlaying ?s) = Some a" by blast
  with p show ?thesis by simp
qed

section \<open>Properties of the sequencer\<close>

text \<open>What each function does to the sequencer's part of the state.\<close>

lemma upd_upd_nth [simp]: "xs[i := f (xs[i := y] ! i)] = xs[i := f y]"
  by (cases "i < length xs") (simp_all add: list_update_beyond)

lemma getOrCreateAudio_seq [simp]:
  "runs (snd (getOrCreateAudio url s)) = runs s"
  "history (snd (getOrCreateAudio url s)) = history s"
  "lessonPlayback (snd (getOrCreateAudio url s)) = lessonPlayback s"
  "passes (snd (getOrCreateAudio url s)) = passes s"
  "lessonButtons (snd (getOrCreateAudio url s)) = lessonButtons s"
  "renderToken (snd (getOrCreateAudio url s)) = renderToken s"
  "buttons (snd (getOrCreateAudio url s)) = buttons s"
  "currentlyPlaying (snd (getOrCreateAudio url s)) = currentlyPlaying s"
  "playPromises (snd (getOrCreateAudio url s)) = playPromises s"
  by (simp_all add: getOrCreateAudio_def split: option.splits)

lemma stopLessonPlayback_seq [simp]:
  "runs (stopLessonPlayback s) = runs s"
  "history (stopLessonPlayback s) = history s"
  "passes (stopLessonPlayback s) = passes s"
  "renderToken (stopLessonPlayback s) = renderToken s"
  "playPromises (stopLessonPlayback s) = playPromises s"
  "lessonPlayback (stopLessonPlayback s) =
     (lessonPlayback s)\<lparr>token := token (lessonPlayback s) + 1, running := False\<rparr>"
  "currentlyPlaying (stopLessonPlayback s) = \<lparr>audio = None, btn = None\<rparr>"
  "length (lessonButtons (stopLessonPlayback s)) = length (lessonButtons s)"
  "map lb_pass (lessonButtons (stopLessonPlayback s)) = map lb_pass (lessonButtons s)"
  by (auto simp: stopLessonPlayback_def Let_def list_eq_iff_nth_eq nth_upd split: option.splits)

lemma playOne_seq [simp]:
  "runs (playOne rid i url ob st s) = runs s"
  "history (playOne rid i url ob st s) = history s @ [ClipStarted rid i]"
  "lessonPlayback (playOne rid i url ob st s) = lessonPlayback s"
  "passes (playOne rid i url ob st s) = passes s"
  "lessonButtons (playOne rid i url ob st s) = lessonButtons s"
  "renderToken (playOne rid i url ob st s) = renderToken s"
  by (cases "getOrCreateAudio url s"; cases ob;
      use getOrCreateAudio_seq [of url s] in \<open>simp add: playOne_def Let_def\<close>)+

lemma cleanup_seq [simp]:
  "runs (cleanup rid i a s) = runs s"
  "history (cleanup rid i a s) = history s"
  "lessonPlayback (cleanup rid i a s) = lessonPlayback s"
  "passes (cleanup rid i a s) = passes s"
  "lessonButtons (cleanup rid i a s) = lessonButtons s"
  "renderToken (cleanup rid i a s) = renderToken s"
  "awaiting rid' i' (cleanup rid i a s) = awaiting rid' i' s"
  by (simp_all add: cleanup_def awaiting_def)

lemma lessonFinally_seq [simp]:
  "runs (lessonFinally rid s) = runs s"
  "history (lessonFinally rid s) = history s"
  "token (lessonPlayback (lessonFinally rid s)) = token (lessonPlayback s)"
  "lessonBtn (lessonPlayback (lessonFinally rid s)) = lessonBtn (lessonPlayback s)"
  "passes (lessonFinally rid s) = passes s"
  "renderToken (lessonFinally rid s) = renderToken s"
  "length (lessonButtons (lessonFinally rid s)) = length (lessonButtons s)"
  "map lb_pass (lessonButtons (lessonFinally rid s)) = map lb_pass (lessonButtons s)"
  by (auto simp: lessonFinally_def Let_def list_eq_iff_nth_eq nth_upd)

lemma settleRun_seq [simp]:
  "runs (settleRun ph rid s) = (runs s)[rid := (runs s ! rid)\<lparr>phase := ph\<rparr>]"
  "history (settleRun ph rid s) = history s"
  "token (lessonPlayback (settleRun ph rid s)) = token (lessonPlayback s)"
  "lessonBtn (lessonPlayback (settleRun ph rid s)) = lessonBtn (lessonPlayback s)"
  "passes (settleRun ph rid s) = passes s"
  "renderToken (settleRun ph rid s) = renderToken s"
  "length (lessonButtons (settleRun ph rid s)) = length (lessonButtons s)"
  "map lb_pass (lessonButtons (settleRun ph rid s)) = map lb_pass (lessonButtons s)"
  by (simp_all add: settleRun_def)

lemma loopHead_seq [simp]:
  "runs (loopHead rid st s) =
     (runs s)[rid := (runs s ! rid)
        \<lparr>phase := (if mayStart rid s then AwaitingClip else Completed)\<rparr>]"
  "history (loopHead rid st s) =
     history s @ (if mayStart rid s then [ClipStarted rid (idx (runs s ! rid))] else [])"
  "token (lessonPlayback (loopHead rid st s)) = token (lessonPlayback s)"
  "lessonBtn (lessonPlayback (loopHead rid st s)) = lessonBtn (lessonPlayback s)"
  "passes (loopHead rid st s) = passes s"
  "renderToken (loopHead rid st s) = renderToken s"
  "length (lessonButtons (loopHead rid st s)) = length (lessonButtons s)"
  "map lb_pass (lessonButtons (loopHead rid st s)) = map lb_pass (lessonButtons s)"
  by (auto simp: loopHead_def Let_def mayStart_def)

lemma afterClip_seq [simp]:
  "runs (afterClip rid s) =
     (runs s)[rid :=
        (if idx (runs s ! rid) + 1 < length (urls (runs s ! rid)) then
           (runs s ! rid)\<lparr>phase :=
              (if token (lessonPlayback s) \<noteq> runToken (runs s ! rid) then Completed
               else Sleeping 1000)\<rparr>
         else (runs s ! rid)\<lparr>idx := idx (runs s ! rid) + 1, phase := Completed\<rparr>)]"
  "history (afterClip rid s) = history s @ [ClipEnded rid (idx (runs s ! rid))]"
  "token (lessonPlayback (afterClip rid s)) = token (lessonPlayback s)"
  "lessonBtn (lessonPlayback (afterClip rid s)) = lessonBtn (lessonPlayback s)"
  "passes (afterClip rid s) = passes s"
  "renderToken (afterClip rid s) = renderToken s"
  "length (lessonButtons (afterClip rid s)) = length (lessonButtons s)"
  "map lb_pass (lessonButtons (afterClip rid s)) = map lb_pass (lessonButtons s)"
  by (auto simp: afterClip_def Let_def list_update_same_conv)

lemma afterSleep_seq [simp]:
  "runs (afterSleep rid ms st s) =
     (runs s)[rid := (runs s ! rid)
        \<lparr>idx := idx (runs s ! rid) + 1,
         phase := (if idx (runs s ! rid) + 1 < length (urls (runs s ! rid)) \<and>
                      token (lessonPlayback s) = runToken (runs s ! rid)
                   then AwaitingClip else Completed)\<rparr>]"
  "rid < length (runs s) \<Longrightarrow> history (afterSleep rid ms st s) =
     history s @ [DelayElapsed rid (idx (runs s ! rid)) ms] @
       (if idx (runs s ! rid) + 1 < length (urls (runs s ! rid)) \<and>
           token (lessonPlayback s) = runToken (runs s ! rid)
        then [ClipStarted rid (idx (runs s ! rid) + 1)] else [])"
  "token (lessonPlayback (afterSleep rid ms st s)) = token (lessonPlayback s)"
  "lessonBtn (lessonPlayback (afterSleep rid ms st s)) = lessonBtn (lessonPlayback s)"
  "passes (afterSleep rid ms st s) = passes s"
  "renderToken (afterSleep rid ms st s) = renderToken s"
  "length (lessonButtons (afterSleep rid ms st s)) = length (lessonButtons s)"
  "map lb_pass (lessonButtons (afterSleep rid ms st s)) = map lb_pass (lessonButtons s)"
  by (cases "rid < length (runs s)";
      simp add: afterSleep_def Let_def mayStart_def list_update_beyond)+

lemma playLessonInOrder_seq [simp]:
  "runs (playLessonInOrder us ref tok caller st s) =
     runs s @ [\<lparr>urls = us, btnsRef = ref, runToken = tok, idx = 0,
                phase = (if us \<noteq> [] \<and> token (lessonPlayback s) = tok
                         then AwaitingClip else Completed),
                callerBtn = caller\<rparr>]"
  "history (playLessonInOrder us ref tok caller st s) =
     history s @ (if us \<noteq> [] \<and> token (lessonPlayback s) = tok
                  then [ClipStarted (length (runs s)) 0] else [])"
  "token (lessonPlayback (playLessonInOrder us ref tok caller st s)) = token (lessonPlayback s)"
  "lessonBtn (lessonPlayback (playLessonInOrder us ref tok caller st s)) =
     lessonBtn (lessonPlayback s)"
  "passes (playLessonInOrder us ref tok caller st s) = passes s"
  "renderToken (playLessonInOrder us ref tok caller st s) = renderToken s"
  "length (lessonButtons (playLessonInOrder us ref tok caller st s)) = length (lessonButtons s)"
  "map lb_pass (lessonButtons (playLessonInOrder us ref tok caller st s)) =
     map lb_pass (lessonButtons s)"
  by (simp_all add: playLessonInOrder_def Let_def mayStart_def)

lemma map_lb_pass_upd:
  "lb_pass (f (xs ! b)) = lb_pass (xs ! b) \<Longrightarrow> map lb_pass (xs[b := f (xs ! b)]) = map lb_pass xs"
  by (auto simp: list_eq_iff_nth_eq nth_upd)

lemma map_lb_pass_relabel [simp]:
  "map lb_pass (xs[b := (xs ! b)\<lparr>lb_textContent := t, lb_is_playing := q\<rparr>]) = map lb_pass xs"
  using map_lb_pass_upd [of "\<lambda>n. n\<lparr>lb_textContent := t, lb_is_playing := q\<rparr>" xs b] by simp

lemma lessonClick_seq:
  "runs (lessonClick b p st s) =
     (if running (lessonPlayback s) then runs s
      else runs s @
        [\<lparr>urls = sentenceUrls (passes s ! p), btnsRef = p,
          runToken = token (lessonPlayback s) + 1, idx = 0,
          phase = (if sentenceUrls (passes s ! p) \<noteq> [] then AwaitingClip else Completed),
          callerBtn = b\<rparr>])"
  "history (lessonClick b p st s) =
     (if running (lessonPlayback s) then history s
      else history s @
        (if sentenceUrls (passes s ! p) \<noteq> [] then [ClipStarted (length (runs s)) 0] else []))"
  "token (lessonPlayback (lessonClick b p st s)) = token (lessonPlayback s) + 1"
  "lessonBtn (lessonPlayback (lessonClick b p st s)) = lessonBtn (lessonPlayback s)"
  "passes (lessonClick b p st s) = passes s"
  "renderToken (lessonClick b p st s) = renderToken s"
  "length (lessonButtons (lessonClick b p st s)) = length (lessonButtons s)"
  "map lb_pass (lessonButtons (lessonClick b p st s)) = map lb_pass (lessonButtons s)"
  by (simp_all add: lessonClick_def Let_def map_lb_pass_upd)

lemma onEnded_seq:
  "runs (onEnded rid i a s) = (if awaiting rid i s then runs (afterClip rid s) else runs s)"
  "history (onEnded rid i a s) =
     (if awaiting rid i s then history s @ [ClipEnded rid i] else history s)"
  "token (lessonPlayback (onEnded rid i a s)) = token (lessonPlayback s)"
  "lessonBtn (lessonPlayback (onEnded rid i a s)) = lessonBtn (lessonPlayback s)"
  "passes (onEnded rid i a s) = passes s"
  "renderToken (onEnded rid i a s) = renderToken s"
  "length (lessonButtons (onEnded rid i a s)) = length (lessonButtons s)"
  "map lb_pass (lessonButtons (onEnded rid i a s)) = map lb_pass (lessonButtons s)"
  by (auto simp: onEnded_def Let_def awaiting_def)

lemma onError_seq:
  "runs (onError rid i a s) =
     (if awaiting rid i s then (runs s)[rid := (runs s ! rid)\<lparr>phase := Aborted\<rparr>] else runs s)"
  "history (onError rid i a s) = history s"
  "token (lessonPlayback (onError rid i a s)) = token (lessonPlayback s)"
  "lessonBtn (lessonPlayback (onError rid i a s)) = lessonBtn (lessonPlayback s)"
  "passes (onError rid i a s) = passes s"
  "renderToken (onError rid i a s) = renderToken s"
  "length (lessonButtons (onError rid i a s)) = length (lessonButtons s)"
  "map lb_pass (lessonButtons (onError rid i a s)) = map lb_pass (lessonButtons s)"
  by (auto simp: onError_def Let_def)

lemma playOneCatch_eq: "playOneCatch rid i a s = onError rid i a s"
  by (simp add: playOneCatch_def onError_def)

lemma wired_seq [simp]:
  "runs (wiredEnded a s) = runs s"
  "history (wiredEnded a s) = history s"
  "lessonPlayback (wiredEnded a s) = lessonPlayback s"
  "passes (wiredEnded a s) = passes s"
  "lessonButtons (wiredEnded a s) = lessonButtons s"
  "renderToken (wiredEnded a s) = renderToken s"
  "runs (wiredError a s) = runs s"
  "history (wiredError a s) = history s"
  "lessonPlayback (wiredError a s) = lessonPlayback s"
  "passes (wiredError a s) = passes s"
  "lessonButtons (wiredError a s) = lessonButtons s"
  "renderToken (wiredError a s) = renderToken s"
  by (simp_all add: wiredEnded_def wiredError_def Let_def)

lemma sentenceClickManual_seq [simp]:
  "runs (sentenceClickManual b a st s) = runs s"
  "history (sentenceClickManual b a st s) = history s"
  "lessonPlayback (sentenceClickManual b a st s) = lessonPlayback s"
  "passes (sentenceClickManual b a st s) = passes s"
  "lessonButtons (sentenceClickManual b a st s) = lessonButtons s"
  "renderToken (sentenceClickManual b a st s) = renderToken s"
  by (simp_all add: sentenceClickManual_def Let_def)

lemma sentenceClick_seq:
  "runs (sentenceClick b a st s) = runs s"
  "history (sentenceClick b a st s) = history s"
  "token (lessonPlayback (sentenceClick b a st s)) =
     (if running (lessonPlayback s) then token (lessonPlayback s) + 1
      else token (lessonPlayback s))"
  "running (lessonPlayback (sentenceClick b a st s)) = False"
  "lessonBtn (lessonPlayback (sentenceClick b a st s)) = lessonBtn (lessonPlayback s)"
  "passes (sentenceClick b a st s) = passes s"
  "renderToken (sentenceClick b a st s) = renderToken s"
  "length (lessonButtons (sentenceClick b a st s)) = length (lessonButtons s)"
  "map lb_pass (lessonButtons (sentenceClick b a st s)) = map lb_pass (lessonButtons s)"
  by (simp_all add: sentenceClick_def Let_def)

lemma sentenceClickCatch_seq [simp]:
  "runs (sentenceClickCatch a s) = runs s"
  "history (sentenceClickCatch a s) = history s"
  "lessonPlayback (sentenceClickCatch a s) = lessonPlayback s"
  "passes (sentenceClickCatch a s) = passes s"
  "lessonButtons (sentenceClickCatch a s) = lessonButtons s"
  "renderToken (sentenceClickCatch a s) = renderToken s"
  by (simp_all add: sentenceClickCatch_def)

lemma dropPromise_seq [simp]:
  "runs (dropPromise n s) = runs s"
  "history (dropPromise n s) = history s"
  "lessonPlayback (dropPromise n s) = lessonPlayback s"
  "passes (dropPromise n s) = passes s"
  "lessonButtons (dropPromise n s) = lessonButtons s"
  "renderToken (dropPromise n s) = renderToken s"
  "audios (dropPromise n s) = audios s"
  "buttons (dropPromise n s) = buttons s"
  "currentlyPlaying (dropPromise n s) = currentlyPlaying s"
  by (simp_all add: dropPromise_def)

lemma attachAudioButton_seq [simp]:
  "runs (attachAudioButton b url s) = runs s"
  "history (attachAudioButton b url s) = history s"
  "lessonPlayback (attachAudioButton b url s) = lessonPlayback s"
  "passes (attachAudioButton b url s) = passes s"
  "lessonButtons (attachAudioButton b url s) = lessonButtons s"
  "renderToken (attachAudioButton b url s) = renderToken s"
  by (cases "getOrCreateAudio (Some url) s";
      use getOrCreateAudio_seq [of "Some url" s] in
        \<open>simp add: attachAudioButton_def Let_def\<close>)+

lemma revealButton_seq [simp]:
  "runs (revealButton p i ex s) = runs s"
  "history (revealButton p i ex s) = history s"
  "lessonPlayback (revealButton p i ex s) = lessonPlayback s"
  "lessonButtons (revealButton p i ex s) = lessonButtons s"
  "renderToken (revealButton p i ex s) = renderToken s"
  "map sentenceUrls (passes (revealButton p i ex s)) = map sentenceUrls (passes s)"
  "map myToken (passes (revealButton p i ex s)) = map myToken (passes s)"
  by (auto simp: revealButton_def Let_def list_eq_iff_nth_eq nth_upd split: option.splits)

lemma offerLesson_seq [simp]:
  "runs (offerLesson p rs s) = runs s"
  "history (offerLesson p rs s) = history s"
  "token (lessonPlayback (offerLesson p rs s)) = token (lessonPlayback s)"
  "running (lessonPlayback (offerLesson p rs s)) = running (lessonPlayback s)"
  "passes (offerLesson p rs s) = passes s"
  "renderToken (offerLesson p rs s) = renderToken s"
  by (simp_all add: offerLesson_def Let_def)

lemma render_seq [simp]:
  "runs (render us s) = runs s"
  "history (render us s) = history s"
  "lessonPlayback (render us s) = lessonPlayback s"
  "lessonButtons (render us s) = lessonButtons s"
  "renderToken (render us s) = renderToken s + 1"
  "passes (render us s) = passes s @
     [\<lparr>myToken = renderToken s + 1, sentenceUrls = us, sentenceBtns = replicate (length us) None\<rparr>]"
  by (simp_all add: render_def)

lemma step_preserves:
  assumes P: "P s"
    and ui: "\<And>s us. P s \<Longrightarrow> P (render us (stopLessonPlayback s))"
    and rb: "\<And>s p i ex. P s \<Longrightarrow> P (revealButton p i ex s)"
    and ol: "\<And>s p rs. P s \<Longrightarrow> P (offerLesson p rs s)"
    and sc: "\<And>s b a st. P s \<Longrightarrow> P (sentenceClick b a st s)"
    and lc: "\<And>s b st. P s \<Longrightarrow> b < length (lessonButtons s) \<Longrightarrow>
              P (lessonClick b (lb_pass (lessonButtons s ! b)) st s)"
    and ua: "\<And>s a f. P s \<Longrightarrow> P (updAudio a f s)"
    and we: "\<And>s a. P s \<Longrightarrow> P (wiredEnded a s)"
    and wr: "\<And>s a. P s \<Longrightarrow> P (wiredError a s)"
    and oe: "\<And>s rid i a. P s \<Longrightarrow> P (onEnded rid i a s)"
    and or: "\<And>s rid i a. P s \<Longrightarrow> P (onError rid i a s)"
    and dp: "\<And>s n. P s \<Longrightarrow> P (dropPromise n s)"
    and cc: "\<And>s a. P s \<Longrightarrow> P (sentenceClickCatch a s)"
    and sl: "\<And>s rid ms st. P s \<Longrightarrow> rid < length (runs s) \<Longrightarrow>
              phase (runs s ! rid) = Sleeping ms \<Longrightarrow> P (afterSleep rid ms st s)"
  shows "P (step e s)"
proof (cases e)
  case (UIChange us)
  then show ?thesis using P ui by (simp add: step_def)
next
  case (ProbeResolved p i ex)
  then show ?thesis using P rb by (simp add: step_def)
next
  case (LessonProbesResolved p rs)
  then show ?thesis using P ol by (simp add: step_def)
next
  case (ClickSentence b st)
  then show ?thesis using P sc by (simp add: step_def split: option.splits)
next
  case (ClickLesson b st)
  then show ?thesis using P lc by (simp add: step_def)
next
  case (AudioEnded a)
  have fe: "P (fireEnded a s' l)" if "P s'" for s' l
    using that we oe by (cases l) (simp_all add: fireEnded_def)
  have "P (foldl (fireEnded a) s' ls)" if "P s'" for s' ls
    using that by (rule foldl_preserves [where P = P, rotated]) (rule fe)
  then show ?thesis using P ua by (simp add: AudioEnded step_def Let_def)
next
  case (AudioError a)
  have fe: "P (fireError a s' l)" if "P s'" for s' l
    using that wr or by (cases l) (simp_all add: fireError_def)
  have "P (foldl (fireError a) s' ls)" if "P s'" for s' ls
    using that by (rule foldl_preserves [where P = P, rotated]) (rule fe)
  then show ?thesis using P by (simp add: AudioError step_def)
next
  case (PlayFulfilled n)
  then show ?thesis using P dp by (simp add: step_def)
next
  case (PlayRejected n)
  then show ?thesis using P dp cc or
    by (simp add: step_def playOneCatch_eq split: pending.splits)
next
  case (TimerFired rid st)
  then show ?thesis using P sl by (simp add: step_def split: phase.splits)
next
  case (TimeUpdate a t)
  then show ?thesis using P ua by (simp add: step_def)
qed

lemma exec_preserves:
  "(\<And>s e. P s \<Longrightarrow> P (step e s)) \<Longrightarrow> P s \<Longrightarrow> P (exec evs s)"
  unfolding exec_def by (induction evs arbitrary: s) simp_all

lemma exec_append: "exec (evs @ evs') s = exec evs' (exec evs s)"
  by (simp add: exec_def)

text \<open>Tokens.\<close>

lemma tokensOk_iff:
  "tokensOk s \<longleftrightarrow> (\<forall>rid<length (runs s). runToken (runs s ! rid) \<le> token (lessonPlayback s))"
  by (auto simp: tokensOk_def list_all_length)

lemma tokensOk_frame:
  "map runToken (runs s') = map runToken (runs s) \<Longrightarrow>
   token (lessonPlayback s) \<le> token (lessonPlayback s') \<Longrightarrow> tokensOk s \<Longrightarrow> tokensOk s'"
proof -
  assume m: "map runToken (runs s') = map runToken (runs s)"
    and t: "token (lessonPlayback s) \<le> token (lessonPlayback s')" and ok: "tokensOk s"
  have l: "length (runs s') = length (runs s)" using m by (metis length_map)
  have "runToken (runs s' ! rid) = runToken (runs s ! rid)" if "rid < length (runs s)" for rid
    using that l m by (metis nth_map)
  with ok t l show ?thesis by (auto simp: tokensOk_iff)
qed

lemma map_runToken_upd:
  "runToken x = runToken (rs ! rid) \<Longrightarrow> map runToken (rs[rid := x]) = map runToken rs"
  by (auto simp: list_eq_iff_nth_eq nth_upd)

lemma map_urls_upd:
  "urls x = urls (rs ! rid) \<Longrightarrow> map urls (rs[rid := x]) = map urls rs"
  by (auto simp: list_eq_iff_nth_eq nth_upd)

lemma runs_meta_afterClip:
  "map runToken (runs (afterClip rid s)) = map runToken (runs s)"
  "map urls (runs (afterClip rid s)) = map urls (runs s)"
  by (simp_all add: map_runToken_upd map_urls_upd)

lemma runs_meta_onEnded:
  "map runToken (runs (onEnded rid i a s)) = map runToken (runs s)"
  "map urls (runs (onEnded rid i a s)) = map urls (runs s)"
  by (cases "awaiting rid i s"; simp add: onEnded_seq map_runToken_upd map_urls_upd)+

lemma runs_meta_onError:
  "map runToken (runs (onError rid i a s)) = map runToken (runs s)"
  "map urls (runs (onError rid i a s)) = map urls (runs s)"
  by (simp_all add: onError_seq map_runToken_upd map_urls_upd)

lemma runs_meta_afterSleep:
  "map runToken (runs (afterSleep rid ms st s)) = map runToken (runs s)"
  "map urls (runs (afterSleep rid ms st s)) = map urls (runs s)"
  by (simp_all add: map_runToken_upd map_urls_upd)

lemma step_tokensOk: "tokensOk s \<Longrightarrow> tokensOk (step e s)"
proof (rule step_preserves [where P = tokensOk])
  fix s b st assume "tokensOk s"
  then show "tokensOk (lessonClick b (lb_pass (lessonButtons s ! b)) st s)"
    by (auto simp: tokensOk_def lessonClick_seq list_all_iff)
next
  fix s b a st assume "tokensOk s"
  then show "tokensOk (sentenceClick b a st s)"
    by (rule tokensOk_frame [rotated 2]) (simp_all add: sentenceClick_seq)
next
  fix s rid i a assume "tokensOk s"
  then show "tokensOk (onEnded rid i a s)"
    by (rule tokensOk_frame [rotated 2]) (simp_all add: runs_meta_onEnded onEnded_seq(3))
next
  fix s rid i a assume "tokensOk s"
  then show "tokensOk (onError rid i a s)"
    by (rule tokensOk_frame [rotated 2]) (simp_all add: runs_meta_onError onError_seq(3))
next
  fix s rid ms st assume "tokensOk s"
  then show "tokensOk (afterSleep rid ms st s)"
    by (rule tokensOk_frame [rotated 2]) (simp_all add: map_runToken_upd)
qed (erule tokensOk_frame [rotated 2]; simp)+

lemma initial_tokensOk: "tokensOk initial"
  by (simp add: tokensOk_def initial_def)

lemma exec_tokensOk: "tokensOk s \<Longrightarrow> tokensOk (exec evs s)"
  by (rule exec_preserves [where P = tokensOk]) (rule step_tokensOk)

lemma rounds_0 [simp]: "rounds rid 0 = []"
  by (simp add: rounds_def)

lemma rounds_Suc:
  "rounds rid (Suc k) =
     rounds rid k @ [ClipStarted rid k, ClipEnded rid k, DelayElapsed rid k 1000]"
  by (simp add: rounds_def)

lemma schedule_split:
  assumes "k < n"
  shows "\<exists>rest. schedule rid n =
           rounds rid k @ [ClipStarted rid k, ClipEnded rid k] @
             (if k + 1 < n then [DelayElapsed rid k 1000] else []) @ rest"
proof -
  let ?g = "\<lambda>i. [ClipStarted rid i, ClipEnded rid i] @
                 (if i + 1 < n then [DelayElapsed rid i 1000] else [])"
  from assms obtain d where n: "n = k + d" and d: "0 < d"
    using less_imp_add_positive by blast
  have "[0..<k + d] = [0..<k] @ [k..<k + d]"
    by (rule upt_add_eq_append) simp
  moreover have "[k..<k + d] = k # [Suc k..<k + d]" using d by (simp add: upt_conv_Cons)
  ultimately have up: "[0..<n] = [0..<k] @ k # [Suc k..<n]" by (simp add: n)
  have m: "map ?g [0..<k] =
      map (\<lambda>i. [ClipStarted rid i, ClipEnded rid i, DelayElapsed rid i 1000]) [0..<k]"
    using assms by (intro map_cong) auto
  have "schedule rid n = concat (map ?g [0..<k]) @ ?g k @ concat (map ?g [Suc k..<n])"
    by (simp only: schedule_def up map_append concat_append list.map concat.simps)
  then have "schedule rid n = rounds rid k @ ?g k @ concat (map ?g [Suc k..<n])"
    by (simp only: m rounds_def)
  then show ?thesis by (intro exI [of _ "concat (map ?g [Suc k..<n])"]) simp
qed

lemma prefix_rounds: "k < n \<Longrightarrow> prefix (rounds rid k) (schedule rid n)"
  using schedule_split [of k n rid] by (auto simp: prefix_def)

lemma prefix_rounds_S:
  "k < n \<Longrightarrow> prefix (rounds rid k @ [ClipStarted rid k]) (schedule rid n)"
  using schedule_split [of k n rid] by (auto simp: prefix_def)

lemma prefix_rounds_SE:
  "k < n \<Longrightarrow> prefix (rounds rid k @ [ClipStarted rid k, ClipEnded rid k]) (schedule rid n)"
  using schedule_split [of k n rid] by (auto simp: prefix_def)

lemma histInv_iff:
  "histInv s \<longleftrightarrow>
     (\<forall>rid<length (runs s). runOk rid s) \<and> (\<forall>x\<in>set (history s). runOf x < length (runs s))"
  by (auto simp: histInv_def list_all_iff)

lemma runOk_cong:
  "runs s' ! rid = runs s ! rid \<Longrightarrow> runHistory rid s' = runHistory rid s \<Longrightarrow>
     runOk rid s' = runOk rid s"
  by (simp add: runOk_def)

lemma histInv_frame:
  "histInv s \<Longrightarrow> runs s' = runs s \<Longrightarrow> history s' = history s \<Longrightarrow> histInv s'"
  by (simp add: histInv_iff runOk_def runHistory_def)

lemma runHistory_append:
  "history s' = history s @ xs \<Longrightarrow>
     runHistory rid s' = runHistory rid s @ filter (\<lambda>x. runOf x = rid) xs"
  by (simp add: runHistory_def)

lemma runOf_simps [simp]:
  "runOf (ClipStarted r i) = r" "runOf (ClipEnded r i) = r" "runOf (DelayElapsed r i ms) = r"
  by (simp_all add: runOf_def)

text \<open>A step that touches one run: the others keep their record and their history.\<close>

lemma histInv_one_run:
  assumes inv: "histInv s"
    and rid: "rid < length (runs s)"
    and rs: "runs s' = (runs s)[rid := r']"
    and hs: "history s' = history s @ xs"
    and xs: "\<forall>x\<in>set xs. runOf x = rid"
    and ok: "runOk rid s'"
  shows "histInv s'"
proof -
  have l: "length (runs s') = length (runs s)" using rs by simp
  have "runOk q s'" if q: "q < length (runs s)" for q
  proof (cases "q = rid")
    case True
    with ok show ?thesis by simp
  next
    case False
    then have "runs s' ! q = runs s ! q" using rs by simp
    moreover have "runHistory q s' = runHistory q s"
      using runHistory_append [OF hs, of q] xs False
      by (auto simp: filter_empty_conv)
    ultimately have "runOk q s' = runOk q s" by (rule runOk_cong)
    with inv q show ?thesis by (simp add: histInv_iff)
  qed
  moreover have "\<forall>x\<in>set (history s'). runOf x < length (runs s')"
    using inv rid xs by (auto simp: histInv_iff hs l)
  ultimately show ?thesis by (simp add: histInv_iff l)
qed

lemma onEnded_histInv:
  assumes inv: "histInv s"
  shows "histInv (onEnded rid i a s)"
proof (cases "awaiting rid i s")
  case False
  then show ?thesis using inv by (rule_tac histInv_frame) (simp_all add: onEnded_seq)
next
  case True
  then have rid: "rid < length (runs s)" and ph: "phase (runs s ! rid) = AwaitingClip"
    and ix: "idx (runs s ! rid) = i" by (simp_all add: awaiting_def)
  let ?r = "runs s ! rid" and ?n = "length (urls (runs s ! rid))"
  from inv rid have "runOk rid s" by (simp add: histInv_iff)
  with ph ix have i: "i < ?n"
    and h: "runHistory rid s = rounds rid i @ [ClipStarted rid i]"
    by (simp_all add: runOk_def Let_def)
  let ?s' = "onEnded rid i a s"
  have hs: "history ?s' = history s @ [ClipEnded rid i]" using True by (simp add: onEnded_seq)
  have h': "runHistory rid ?s' = rounds rid i @ [ClipStarted rid i, ClipEnded rid i]"
    using runHistory_append [OF hs, of rid] h by simp
  have rs: "runs ?s' = (runs s)[rid :=
      (if i + 1 < ?n then
         ?r\<lparr>phase := (if token (lessonPlayback s) \<noteq> runToken ?r then Completed
                        else Sleeping 1000)\<rparr>
       else ?r\<lparr>idx := i + 1, phase := Completed\<rparr>)]"
    using True ix by (simp add: onEnded_seq)
  have "runOk rid ?s'"
    using rid i ix h' prefix_rounds_SE [OF i, of rid]
    by (simp add: runOk_def rs Let_def)
  from histInv_one_run [OF inv rid rs hs _ this] show ?thesis by simp
qed

lemma onError_histInv:
  assumes inv: "histInv s"
  shows "histInv (onError rid i a s)"
proof (cases "awaiting rid i s")
  case False
  then show ?thesis using inv by (rule_tac histInv_frame) (simp_all add: onError_seq)
next
  case True
  then have rid: "rid < length (runs s)" and ph: "phase (runs s ! rid) = AwaitingClip"
    and ix: "idx (runs s ! rid) = i" by (simp_all add: awaiting_def)
  let ?n = "length (urls (runs s ! rid))"
  from inv rid have "runOk rid s" by (simp add: histInv_iff)
  with ph ix have i: "i < ?n"
    and h: "runHistory rid s = rounds rid i @ [ClipStarted rid i]"
    by (simp_all add: runOk_def Let_def)
  let ?s' = "onError rid i a s"
  have hs: "history ?s' = history s @ []" by (simp add: onError_seq)
  have rs: "runs ?s' = (runs s)[rid := (runs s ! rid)\<lparr>phase := Aborted\<rparr>]"
    using True by (simp add: onError_seq)
  have "runHistory rid ?s' = runHistory rid s" by (simp add: runHistory_def onError_seq)
  then have "runOk rid ?s'"
    using rid h ix prefix_rounds_S [OF i, of rid] by (simp add: runOk_def rs Let_def)
  from histInv_one_run [OF inv rid rs hs _ this] show ?thesis by simp
qed

lemma afterSleep_histInv:
  assumes inv: "histInv s" and rid: "rid < length (runs s)"
    and ph: "phase (runs s ! rid) = Sleeping ms"
  shows "histInv (afterSleep rid ms st s)"
proof -
  let ?r = "runs s ! rid" and ?n = "length (urls (runs s ! rid))"
  let ?i = "idx (runs s ! rid)"
  from inv rid have "runOk rid s" by (simp add: histInv_iff)
  with ph have ms: "ms = 1000" and i: "?i + 1 < ?n"
    and h: "runHistory rid s = rounds rid ?i @ [ClipStarted rid ?i, ClipEnded rid ?i]"
    by (simp_all add: runOk_def Let_def)
  let ?go = "token (lessonPlayback s) = runToken ?r"
  let ?s' = "afterSleep rid ms st s"
  let ?xs = "[DelayElapsed rid ?i ms] @ (if ?go then [ClipStarted rid (?i + 1)] else [])"
  have hs: "history ?s' = history s @ ?xs" using rid i by simp
  have rs: "runs ?s' = (runs s)[rid :=
      ?r\<lparr>idx := ?i + 1, phase := (if ?go then AwaitingClip else Completed)\<rparr>]"
    using i by simp
  have h': "runHistory rid ?s' =
      rounds rid (Suc ?i) @ (if ?go then [ClipStarted rid (Suc ?i)] else [])"
    using runHistory_append [OF hs, of rid] h ms by (simp add: rounds_Suc)
  have "runOk rid ?s'"
    using rid i h' prefix_rounds [of "Suc ?i" ?n rid]
    by (simp add: runOk_def rs Let_def)
  from histInv_one_run [OF inv rid rs hs _ this] show ?thesis by simp
qed

lemma lessonClick_histInv:
  assumes inv: "histInv s"
  shows "histInv (lessonClick b p st s)"
proof (cases "running (lessonPlayback s)")
  case True
  then show ?thesis using inv by (rule_tac histInv_frame) (simp_all add: lessonClick_seq)
next
  case False
  let ?s' = "lessonClick b p st s"
  let ?us = "sentenceUrls (passes s ! p)"
  let ?rid = "length (runs s)"
  let ?new = "\<lparr>urls = ?us, btnsRef = p, runToken = token (lessonPlayback s) + 1, idx = 0,
      phase = (if ?us \<noteq> [] then AwaitingClip else Completed), callerBtn = b\<rparr>"
  let ?xs = "if ?us \<noteq> [] then [ClipStarted ?rid 0] else []"
  have rs: "runs ?s' = runs s @ [?new]" using False by (simp add: lessonClick_seq)
  have hs: "history ?s' = history s @ ?xs" using False by (simp add: lessonClick_seq)
  have l: "length (runs ?s') = Suc ?rid" by (simp add: rs)
  have empty: "runHistory ?rid s = []"
    using inv by (auto simp: histInv_iff runHistory_def filter_empty_conv)
  have "runOk q ?s'" if q: "q < Suc ?rid" for q
  proof (cases "q = ?rid")
    case True
    have "runHistory ?rid ?s' = ?xs" using runHistory_append [OF hs, of ?rid] empty by simp
    then show ?thesis unfolding True by (simp add: runOk_def rs Let_def)
  next
    case neq: False
    with q have q': "q < ?rid" by simp
    then have "runs ?s' ! q = runs s ! q" by (simp add: rs nth_append)
    moreover have "runHistory q ?s' = runHistory q s"
      using runHistory_append [OF hs, of q] neq by simp
    ultimately have "runOk q ?s' = runOk q s" by (rule runOk_cong)
    with inv q' show ?thesis by (simp add: histInv_iff)
  qed
  moreover have "\<forall>x\<in>set (history ?s'). runOf x < length (runs ?s')"
    using inv by (auto simp: histInv_iff hs l less_Suc_eq)
  ultimately show ?thesis by (simp add: histInv_iff l)
qed

lemma step_histInv: "histInv s \<Longrightarrow> histInv (step e s)"
proof (rule step_preserves [where P = histInv])
  fix s b st assume "histInv s"
  then show "histInv (lessonClick b (lb_pass (lessonButtons s ! b)) st s)"
    by (rule lessonClick_histInv)
next
  fix s rid i a assume "histInv s"
  then show "histInv (onEnded rid i a s)" by (rule onEnded_histInv)
next
  fix s rid i a assume "histInv s"
  then show "histInv (onError rid i a s)" by (rule onError_histInv)
next
  fix s rid ms st
  assume "histInv s" "rid < length (runs s)" "phase (runs s ! rid) = Sleeping ms"
  then show "histInv (afterSleep rid ms st s)" by (rule afterSleep_histInv)
next
  fix s b a st assume "histInv s"
  then show "histInv (sentenceClick b a st s)"
    by (rule histInv_frame) (simp_all add: sentenceClick_seq)
qed (erule histInv_frame; simp)+

lemma initial_histInv: "histInv initial"
  by (simp add: histInv_def initial_def)

lemma exec_histInv: "histInv s \<Longrightarrow> histInv (exec evs s)"
  by (rule exec_preserves [where P = histInv]) (rule step_histInv)

lemma later_iff:
  "later s s' \<longleftrightarrow>
     length (runs s) \<le> length (runs s') \<and>
     (\<forall>rid<length (runs s). runToken (runs s' ! rid) = runToken (runs s ! rid) \<and>
                             urls (runs s' ! rid) = urls (runs s ! rid)) \<and>
     token (lessonPlayback s) \<le> token (lessonPlayback s') \<and>
     (\<forall>rid<length (runs s). runToken (runs s ! rid) < token (lessonPlayback s) \<longrightarrow>
        filter isStart (runHistory rid s') = filter isStart (runHistory rid s))"
proof -
  have "(length (runs s) \<le> length (runs s') \<and>
         map f (take (length (runs s)) (runs s')) = map f (runs s)) \<longleftrightarrow>
        (length (runs s) \<le> length (runs s') \<and>
         (\<forall>rid<length (runs s). f (runs s' ! rid) = f (runs s ! rid)))" for f :: "run \<Rightarrow> 'b"
    by (auto simp: list_eq_iff_nth_eq)
  from this [of runToken] this [of urls] show ?thesis
    unfolding later_def list_all_iff by auto
qed

lemma later_refl: "later s s"
  by (simp add: later_iff)

lemma later_trans: "later s s' \<Longrightarrow> later s' s'' \<Longrightarrow> later s s''"
  unfolding later_iff by (auto simp: le_trans)


lemma later_history:
  assumes len: "length (runs s) \<le> length (runs s')"
    and meta: "\<forall>rid<length (runs s). runToken (runs s' ! rid) = runToken (runs s ! rid) \<and>
                 urls (runs s' ! rid) = urls (runs s ! rid)"
    and tok: "token (lessonPlayback s) \<le> token (lessonPlayback s')"
    and hs: "history s' = history s @ xs"
    and xs: "\<forall>x\<in>set xs. isStart x \<longrightarrow>
               runOf x < length (runs s) \<longrightarrow>
               runToken (runs s ! runOf x) = token (lessonPlayback s)"
  shows "later s s'"
proof -
  have "filter isStart (runHistory rid s') = filter isStart (runHistory rid s)"
    if "rid < length (runs s)" "runToken (runs s ! rid) < token (lessonPlayback s)" for rid
  proof -
    have "filter isStart (filter (\<lambda>x. runOf x = rid) xs) = []"
      using xs that by (auto simp: filter_empty_conv)
    then show ?thesis using runHistory_append [OF hs, of rid] by simp
  qed
  with len meta tok show ?thesis by (simp add: later_iff)
qed

lemma later_frame:
  "runs s' = runs s \<Longrightarrow> history s' = history s \<Longrightarrow>
   token (lessonPlayback s) \<le> token (lessonPlayback s') \<Longrightarrow> later s s'"
  by (rule later_history [where xs = "[]"]) simp_all

lemma isStart_simps [simp]:
  "isStart (ClipStarted r i)" "\<not> isStart (ClipEnded r i)" "\<not> isStart (DelayElapsed r i ms)"
  by (simp_all add: isStart_def)

lemma onEnded_later: "later s (onEnded rid i a s)"
proof (cases "awaiting rid i s")
  case False
  then show ?thesis by (intro later_frame) (simp_all add: onEnded_seq)
next
  case True
  show ?thesis
  proof (rule later_history [where xs = "[ClipEnded rid i]"])
    show "\<forall>q<length (runs s). runToken (runs (onEnded rid i a s) ! q) = runToken (runs s ! q) \<and>
        urls (runs (onEnded rid i a s) ! q) = urls (runs s ! q)"
      using True by (auto simp: onEnded_seq nth_upd)
  qed (use True in \<open>simp_all add: onEnded_seq\<close>)
qed

lemma onError_later: "later s (onError rid i a s)"
proof (rule later_history [where xs = "[]"])
  show "\<forall>q<length (runs s). runToken (runs (onError rid i a s) ! q) = runToken (runs s ! q) \<and>
      urls (runs (onError rid i a s) ! q) = urls (runs s ! q)"
    by (auto simp: onError_seq nth_upd)
qed (simp_all add: onError_seq)

lemma afterSleep_later:
  assumes "rid < length (runs s)"
  shows "later s (afterSleep rid ms st s)"
proof (rule later_history [where xs = "[DelayElapsed rid (idx (runs s ! rid)) ms] @
      (if idx (runs s ! rid) + 1 < length (urls (runs s ! rid)) \<and>
          token (lessonPlayback s) = runToken (runs s ! rid)
       then [ClipStarted rid (idx (runs s ! rid) + 1)] else [])"])
  show "\<forall>q<length (runs s).
      runToken (runs (afterSleep rid ms st s) ! q) = runToken (runs s ! q) \<and>
      urls (runs (afterSleep rid ms st s) ! q) = urls (runs s ! q)"
    by (auto simp: nth_upd)
qed (use assms in simp_all)

lemma lessonClick_later: "later s (lessonClick b p st s)"
proof (cases "running (lessonPlayback s)")
  case True
  then show ?thesis by (intro later_frame) (simp_all add: lessonClick_seq)
next
  case False
  show ?thesis
  proof (rule later_history [where xs = "if sentenceUrls (passes s ! p) \<noteq> []
        then [ClipStarted (length (runs s)) 0] else []"])
    show "\<forall>q<length (runs s).
        runToken (runs (lessonClick b p st s) ! q) = runToken (runs s ! q) \<and>
        urls (runs (lessonClick b p st s) ! q) = urls (runs s ! q)"
      using False by (simp add: lessonClick_seq nth_append)
  qed (use False in \<open>simp_all add: lessonClick_seq\<close>)
qed

lemma step_later: "later s0 s \<Longrightarrow> later s0 (step e s)"
proof (rule step_preserves [where P = "later s0"])
  fix s b st assume "later s0 s"
  then show "later s0 (lessonClick b (lb_pass (lessonButtons s ! b)) st s)"
    using lessonClick_later by (rule later_trans)
next
  fix s rid i a assume "later s0 s"
  then show "later s0 (onEnded rid i a s)" using onEnded_later by (rule later_trans)
next
  fix s rid i a assume "later s0 s"
  then show "later s0 (onError rid i a s)" using onError_later by (rule later_trans)
next
  fix s rid ms st assume "later s0 s" "rid < length (runs s)"
  then show "later s0 (afterSleep rid ms st s)"
    using afterSleep_later by (blast intro: later_trans)
next
  fix s b a st assume "later s0 s"
  moreover have "later s (sentenceClick b a st s)"
    by (rule later_frame) (simp_all add: sentenceClick_seq)
  ultimately show "later s0 (sentenceClick b a st s)" by (rule later_trans)
qed (erule later_trans, rule later_frame, simp_all)+

lemma exec_later: "later s (exec evs s)"
  by (rule exec_preserves [where P = "later s"]) (simp_all add: step_later later_refl)

lemma runOk_prefix:
  assumes "runOk rid s"
  shows "prefix (runHistory rid s) (schedule rid (length (urls (runs s ! rid))))"
proof (cases "phase (runs s ! rid)")
  case AwaitingClip
  with assms show ?thesis by (auto simp: runOk_def Let_def prefix_rounds_S)
next
  case (Sleeping ms)
  with assms have "idx (runs s ! rid) < length (urls (runs s ! rid))"
    and "runHistory rid s = rounds rid (idx (runs s ! rid)) @
          [ClipStarted rid (idx (runs s ! rid)), ClipEnded rid (idx (runs s ! rid))]"
    by (simp_all add: runOk_def Let_def)
  then show ?thesis by (simp add: prefix_rounds_SE)
next
  case Completed
  with assms show ?thesis by (simp add: runOk_def Let_def)
next
  case Aborted
  with assms show ?thesis by (simp add: runOk_def Let_def)
qed


lemma quiet_sessions:
  "quiet s \<Longrightarrow> playingClips s = [] \<and> playingButtons s = [] \<and>
     currentlyPlaying s = \<lparr>audio = None, btn = None\<rparr>"
  by (simp add: quiet_def)

lemma stopCurrentAudio_resets_clip:
  assumes "audio (currentlyPlaying s) = Some a" and "a < length (audios s)"
  shows "paused (audios (stopCurrentAudio s) ! a) \<and> currentTime (audios (stopCurrentAudio s) ! a) = 0"
  using assms by (simp add: stopCurrentAudio_audios)

lemma stopCurrentAudio_resets_button:
  assumes "btn (currentlyPlaying s) = Some b" and "b < length (buttons s)"
  shows "\<not> is_playing (buttons (stopCurrentAudio s) ! b) \<and>
         textContent (buttons (stopCurrentAudio s) ! b) = playSymbol"
  using assms by (simp add: stopCurrentAudio_buttons)

lemma stopLessonPlayback_player:
  "audios (stopLessonPlayback s) = audios (stopCurrentAudio s)"
  "buttons (stopLessonPlayback s) = buttons (stopCurrentAudio s)"
  by (simp_all add: stopLessonPlayback_def Let_def stopCurrentAudio_audios
      stopCurrentAudio_buttons audioAt_def split: option.splits)

lemma stopLessonPlayback_lesson_button:
  assumes "lessonBtn (lessonPlayback s) = Some lb" and "lb < length (lessonButtons s)"
  shows "\<not> lb_is_playing (lessonButtons (stopLessonPlayback s) ! lb) \<and>
         lb_textContent (lessonButtons (stopLessonPlayback s) ! lb) = js ''Play lesson''"
  using assms by (simp add: stopLessonPlayback_def Let_def)

lemma stopLessonPlayback_cancels:
  assumes s: "s = exec evs initial"
  shows "token (lessonPlayback (stopLessonPlayback s)) = token (lessonPlayback s) + 1 \<and>
         \<not> running (lessonPlayback (stopLessonPlayback s)) \<and>
         (\<forall>r\<in>set (runs (stopLessonPlayback s)).
            runToken r \<noteq> token (lessonPlayback (stopLessonPlayback s))) \<and>
         currentlyPlaying (stopLessonPlayback s) = \<lparr>audio = None, btn = None\<rparr> \<and>
         playingClips (stopLessonPlayback s) = [] \<and>
         playingButtons (stopLessonPlayback s) = []"
proof -
  have e: "exclusive s" unfolding s by (rule exec_exclusive [OF initial_exclusive])
  have t: "tokensOk s" unfolding s by (rule exec_tokensOk [OF initial_tokensOk])
  from t have "\<forall>r\<in>set (runs s). runToken r \<le> token (lessonPlayback s)"
    by (simp add: tokensOk_def list_all_iff)
  then have "\<forall>r\<in>set (runs (stopLessonPlayback s)).
      runToken r \<noteq> token (lessonPlayback (stopLessonPlayback s))" by auto
  with quiet_sessions [OF stopLessonPlayback_quiet [OF e]] show ?thesis by simp
qed

lemma sentenceClickManual_on_quiet:
  assumes "quiet s"
  shows "currentlyPlaying (sentenceClickManual b a st s) = \<lparr>audio = Some a, btn = Some b\<rparr>"
  using assms by (simp add: sentenceClickManual_def Let_def quiet_def)


text \<open>
  \<^bold>\<open>C2.\<close> In every reachable state the history of a run is a prefix of the schedule
  for its targets: clip \<open>0\<close> starts and ends, the pause elapses, clip \<open>1\<close> starts
  and ends, and so on in index order, with no pause after the last clip. So clip
  \<open>i + 1\<close> never starts before the \<^verbatim>\<open>ended\<close> signal of clip \<open>i\<close> and the pause have
  both been observed; the pause is always 1000 ms. Once the token differs from the run's
  token the run never starts another clip, whatever happens later, and at its next check
  point (after the pause, or after the clip ends) the loop returns.
\<close>

theorem lesson_plays_in_order:
  assumes s: "s = exec evs initial" and rid: "rid < length (runs s)"
  shows "prefix (runHistory rid s) (schedule rid (length (urls (runs s ! rid)))) \<and>
         (\<forall>ms. phase (runs s ! rid) = Sleeping ms \<longrightarrow> ms = 1000) \<and>
         (token (lessonPlayback s) \<noteq> runToken (runs s ! rid) \<longrightarrow>
            (\<forall>evs'. filter isStart (runHistory rid (exec evs' s)) =
                      filter isStart (runHistory rid s)) \<and>
            (\<forall>ms st. phase (runs s ! rid) = Sleeping ms \<longrightarrow>
               phase (runs (step (TimerFired rid st) s) ! rid) = Completed) \<and>
            (\<forall>a. phase (runs s ! rid) = AwaitingClip \<longrightarrow>
               phase (runs (onEnded rid (idx (runs s ! rid)) a s) ! rid) = Completed))"
proof -
  have inv: "histInv s" unfolding s by (rule exec_histInv [OF initial_histInv])
  have tok: "tokensOk s" unfolding s by (rule exec_tokensOk [OF initial_tokensOk])
  from inv rid have ok: "runOk rid s" by (simp add: histInv_iff)
  have a: "prefix (runHistory rid s) (schedule rid (length (urls (runs s ! rid))))"
    using ok by (rule runOk_prefix)
  have b: "\<forall>ms. phase (runs s ! rid) = Sleeping ms \<longrightarrow> ms = 1000"
    using ok by (auto simp: runOk_def Let_def)
  have c: "(\<forall>evs'. filter isStart (runHistory rid (exec evs' s)) =
                      filter isStart (runHistory rid s)) \<and>
      (\<forall>ms st. phase (runs s ! rid) = Sleeping ms \<longrightarrow>
         phase (runs (step (TimerFired rid st) s) ! rid) = Completed) \<and>
      (\<forall>a. phase (runs s ! rid) = AwaitingClip \<longrightarrow>
         phase (runs (onEnded rid (idx (runs s ! rid)) a s) ! rid) = Completed)"
    if ne: "token (lessonPlayback s) \<noteq> runToken (runs s ! rid)"
  proof -
    from tok rid ne have stale: "runToken (runs s ! rid) < token (lessonPlayback s)"
      by (auto simp: tokensOk_iff le_neq_implies_less)
    have "filter isStart (runHistory rid (exec evs' s)) = filter isStart (runHistory rid s)"
      for evs'
      using exec_later [of s evs'] rid stale by (simp add: later_iff)
    moreover have "phase (runs (step (TimerFired rid st) s) ! rid) = Completed"
      if "phase (runs s ! rid) = Sleeping ms" for ms st
      using that rid ne by (simp add: step_def)
    moreover have "phase (runs (onEnded rid (idx (runs s ! rid)) a s) ! rid) = Completed"
      if "phase (runs s ! rid) = AwaitingClip" for a
      using that rid ne by (simp add: onEnded_seq awaiting_def)
    ultimately show ?thesis by blast
  qed
  from a b c show ?thesis by blast
qed

theorem lesson_plays_in_order_witness:
  "runs (exec [UIChange [Some (js ''a''), Some (js ''b'')], ProbeResolved 0 0 True,
         ProbeResolved 0 1 True, LessonProbesResolved 0 [True, True], ClickLesson 0 True,
         PlayFulfilled 0, AudioEnded 0, TimerFired 0 True, AudioEnded 1] initial) \<noteq> [] \<and>
   runHistory 0
     (exec [UIChange [Some (js ''a''), Some (js ''b'')], ProbeResolved 0 0 True,
         ProbeResolved 0 1 True, LessonProbesResolved 0 [True, True], ClickLesson 0 True,
         PlayFulfilled 0, AudioEnded 0, TimerFired 0 True, AudioEnded 1] initial) =
     [ClipStarted 0 0, ClipEnded 0 0, DelayElapsed 0 0 1000, ClipStarted 0 1, ClipEnded 0 1] \<and>
   prefix [ClipStarted 0 0, ClipEnded 0 0, DelayElapsed 0 0 1000, ClipStarted 0 1, ClipEnded 0 1]
     (schedule 0 2)"
proof -
  let ?evs = "[UIChange [Some (js ''a''), Some (js ''b'')], ProbeResolved 0 0 True,
         ProbeResolved 0 1 True, LessonProbesResolved 0 [True, True], ClickLesson 0 True,
         PlayFulfilled 0, AudioEnded 0, TimerFired 0 True, AudioEnded 1]"
  let ?s = "exec ?evs initial"
  have r: "map urls (runs ?s) = [[Some (js ''a''), Some (js ''b'')]]"
    by (simp add: player_eval js_def)
  have h: "runHistory 0 ?s =
      [ClipStarted 0 0, ClipEnded 0 0, DelayElapsed 0 0 1000, ClipStarted 0 1, ClipEnded 0 1]"
    by (simp add: player_eval js_def runHistory_def runOf_def)
  from r have l: "0 < length (runs ?s)" and u: "length (urls (runs ?s ! 0)) = 2"
    by (auto simp: map_eq_Cons_conv)
  from lesson_plays_in_order [OF refl l]
  have "prefix (runHistory 0 ?s) (schedule 0 (length (urls (runs ?s ! 0))))" by blast
  with h u l show ?thesis by simp
qed

text \<open>
  \<^bold>\<open>C4.\<close> In whatever reachable state it is called, \<^verbatim>\<open>stopLessonPlayback()\<close> increments
  the token, so that no run holds the current token any more, sets \<^verbatim>\<open>running\<close> to
  false, and stops the current audio: afterwards no clip is playing, no sentence button
  shows the playing state and the slot is empty. The clip that was active is paused at
  position \<open>0\<close>, its button shows the play symbol again, and the play-lesson button is
  back to its idle label.
\<close>

theorem cancel_stops_everything:
  assumes s: "s = exec evs initial"
  shows "token (lessonPlayback (stopLessonPlayback s)) = token (lessonPlayback s) + 1 \<and>
         \<not> running (lessonPlayback (stopLessonPlayback s)) \<and>
         (\<forall>r\<in>set (runs (stopLessonPlayback s)).
            runToken r \<noteq> token (lessonPlayback (stopLessonPlayback s))) \<and>
         currentlyPlaying (stopLessonPlayback s) = \<lparr>audio = None, btn = None\<rparr> \<and>
         playingClips (stopLessonPlayback s) = [] \<and>
         playingButtons (stopLessonPlayback s) = [] \<and>
         (\<forall>a. audio (currentlyPlaying s) = Some a \<and> a < length (audios s) \<longrightarrow>
            paused (audios (stopLessonPlayback s) ! a) \<and>
            currentTime (audios (stopLessonPlayback s) ! a) = 0) \<and>
         (\<forall>b. btn (currentlyPlaying s) = Some b \<and> b < length (buttons s) \<longrightarrow>
            \<not> is_playing (buttons (stopLessonPlayback s) ! b) \<and>
            textContent (buttons (stopLessonPlayback s) ! b) = playSymbol) \<and>
         (\<forall>lb. lessonBtn (lessonPlayback s) = Some lb \<and> lb < length (lessonButtons s) \<longrightarrow>
            \<not> lb_is_playing (lessonButtons (stopLessonPlayback s) ! lb) \<and>
            lb_textContent (lessonButtons (stopLessonPlayback s) ! lb) = js ''Play lesson'')"
  using stopLessonPlayback_cancels [OF s] stopCurrentAudio_resets_clip [of s]
    stopCurrentAudio_resets_button [of s] stopLessonPlayback_lesson_button [of s]
  by (simp add: stopLessonPlayback_player)

theorem cancel_stops_everything_witness:
  "playingClips (exec [UIChange [Some (js ''a'')], ProbeResolved 0 0 True,
        LessonProbesResolved 0 [True], ClickLesson 0 True] initial) = [0] \<and>
   running (lessonPlayback (exec [UIChange [Some (js ''a'')], ProbeResolved 0 0 True,
        LessonProbesResolved 0 [True], ClickLesson 0 True] initial)) \<and>
   playingClips (stopLessonPlayback (exec [UIChange [Some (js ''a'')], ProbeResolved 0 0 True,
        LessonProbesResolved 0 [True], ClickLesson 0 True] initial)) = [] \<and>
   \<not> running (lessonPlayback (stopLessonPlayback (exec [UIChange [Some (js ''a'')],
        ProbeResolved 0 0 True, LessonProbesResolved 0 [True], ClickLesson 0 True] initial))) \<and>
   token (lessonPlayback (stopLessonPlayback (exec [UIChange [Some (js ''a'')],
        ProbeResolved 0 0 True, LessonProbesResolved 0 [True], ClickLesson 0 True] initial))) = 3"
proof -
  let ?s = "exec [UIChange [Some (js ''a'')], ProbeResolved 0 0 True,
        LessonProbesResolved 0 [True], ClickLesson 0 True] initial"
  have a: "playingClips ?s = [0]" and b: "running (lessonPlayback ?s)"
    and c: "token (lessonPlayback ?s) = 2"
    by (simp_all add: player_eval js_def)
  from cancel_stops_everything [OF refl, of "[UIChange [Some (js ''a'')],
        ProbeResolved 0 0 True, LessonProbesResolved 0 [True], ClickLesson 0 True]"] a b c
  show ?thesis by simp
qed


text \<open>
  \<^bold>\<open>C3.\<close> When a lesson run is active (\<^verbatim>\<open>running\<close> is true), a click on a sentence
  button first calls \<^verbatim>\<open>stopLessonPlayback()\<close>: the click is the manual part of the
  handler applied to the cancelled state, in which the token is incremented, \<^verbatim>\<open>running\<close>
  is false and nothing plays. After the click the run is still idle, no run holds the
  current token, and the clicked sentence is the one bound in \<^verbatim>\<open>currentlyPlaying\<close>.
\<close>

theorem manual_play_cancels_lesson:
  assumes s: "s = exec evs initial" and run: "running (lessonPlayback s)"
  shows "sentenceClick b a st s = sentenceClickManual b a st (stopLessonPlayback s) \<and>
         token (lessonPlayback (stopLessonPlayback s)) = token (lessonPlayback s) + 1 \<and>
         \<not> running (lessonPlayback (stopLessonPlayback s)) \<and>
         currentlyPlaying (stopLessonPlayback s) = \<lparr>audio = None, btn = None\<rparr> \<and>
         playingClips (stopLessonPlayback s) = [] \<and>
         playingButtons (stopLessonPlayback s) = [] \<and>
         token (lessonPlayback (sentenceClick b a st s)) = token (lessonPlayback s) + 1 \<and>
         \<not> running (lessonPlayback (sentenceClick b a st s)) \<and>
         (\<forall>r\<in>set (runs (sentenceClick b a st s)).
            runToken r \<noteq> token (lessonPlayback (sentenceClick b a st s))) \<and>
         currentlyPlaying (sentenceClick b a st s) = \<lparr>audio = Some a, btn = Some b\<rparr>"
proof -
  have e: "exclusive s" unfolding s by (rule exec_exclusive [OF initial_exclusive])
  have eq: "sentenceClick b a st s = sentenceClickManual b a st (stopLessonPlayback s)"
    using run by (simp add: sentenceClick_def)
  have slot: "currentlyPlaying (sentenceClick b a st s) = \<lparr>audio = Some a, btn = Some b\<rparr>"
    unfolding eq by (rule sentenceClickManual_on_quiet [OF stopLessonPlayback_quiet [OF e]])
  from stopLessonPlayback_cancels [OF s] eq slot show ?thesis by simp
qed

theorem manual_play_cancels_lesson_witness:
  "running (lessonPlayback (exec [UIChange [Some (js ''a''), Some (js ''b'')],
       ProbeResolved 0 0 True, ProbeResolved 0 1 True, LessonProbesResolved 0 [True, True],
       ClickLesson 0 True] initial)) \<and>
   \<not> running (lessonPlayback (sentenceClick 1 1 True (exec [UIChange [Some (js ''a''),
       Some (js ''b'')], ProbeResolved 0 0 True, ProbeResolved 0 1 True,
       LessonProbesResolved 0 [True, True], ClickLesson 0 True] initial))) \<and>
   currentlyPlaying (sentenceClick 1 1 True (exec [UIChange [Some (js ''a''),
       Some (js ''b'')], ProbeResolved 0 0 True, ProbeResolved 0 1 True,
       LessonProbesResolved 0 [True, True], ClickLesson 0 True] initial)) =
     \<lparr>audio = Some 1, btn = Some 1\<rparr>"
proof -
  let ?evs = "[UIChange [Some (js ''a''), Some (js ''b'')],
       ProbeResolved 0 0 True, ProbeResolved 0 1 True, LessonProbesResolved 0 [True, True],
       ClickLesson 0 True]"
  have r: "running (lessonPlayback (exec ?evs initial))"
    by (simp add: player_eval js_def)
  from manual_play_cancels_lesson [OF refl r, of 1 1 True] r show ?thesis by blast
qed

subsection \<open>A play request that fails\<close>

lemma stopCurrentAudio_keeps:
  "a < length (audios s) \<Longrightarrow> missing (audios (stopCurrentAudio s) ! a) = missing (audios s ! a)"
  "a < length (audios s) \<Longrightarrow>
     listeners (audios (stopCurrentAudio s) ! a) = listeners (audios s ! a)"
  by (auto simp: stopCurrentAudio_audios nth_upd audioAt_def split: option.splits)

lemma sentenceClickCatch_flags:
  "a < length (audios s) \<Longrightarrow> missing (audios (sentenceClickCatch a s) ! a)"
  by (simp add: sentenceClickCatch_def stopCurrentAudio_keeps)

lemma playingClips_frame:
  "map paused (audios s') = map paused (audios s) \<Longrightarrow> playingClips s' = playingClips s"
proof -
  assume m: "map paused (audios s') = map paused (audios s)"
  then have l: "length (audios s') = length (audios s)" by (metis length_map)
  have "paused (audios s' ! a) = paused (audios s ! a)" if "a < length (audios s)" for a
    using that l m by (metis nth_map)
  then show ?thesis unfolding playingClips_def l by (intro filter_cong) auto
qed

lemma onError_detaches:
  assumes "awaiting rid i s" and "a < length (audios s)"
  shows "PlayOneL rid i \<notin> set (listeners (audios (onError rid i a s) ! a))"
proof -
  let ?s1 = "cleanup rid i a s"
  have l: "a < length (audios ?s1)" using assms(2) by (simp add: cleanup_def)
  have c: "PlayOneL rid i \<notin> set (listeners (audios ?s1 ! a))"
    using assms(2) by (simp add: cleanup_def)
  let ?s2 = "updRun rid (\<lambda>r. r\<lparr>phase := Aborted\<rparr>) ?s1"
  have "listeners (audios (lessonFinally rid ?s2) ! a) = listeners (audios ?s1 ! a)"
    using l by (simp add: lessonFinally_def Let_def stopCurrentAudio_keeps)
  with c assms(1) show ?thesis by (simp add: onError_def settleRun_def Let_def)
qed

lemma onError_current_token:
  assumes e: "exclusive s" and aw: "awaiting rid i s"
    and t: "token (lessonPlayback s) = runToken (runs s ! rid)"
  shows "\<not> running (lessonPlayback (onError rid i a s)) \<and> quiet (onError rid i a s)"
proof -
  let ?s2 = "updRun rid (\<lambda>r. r\<lparr>phase := Aborted\<rparr>) (cleanup rid i a s)"
  from aw have rid: "rid < length (runs s)" by (simp add: awaiting_def)
  have e2: "exclusive ?s2" using e by (simp add: cleanup_exclusive)
  have eq: "onError rid i a s = lessonFinally rid ?s2"
    using aw by (simp add: onError_def settleRun_def Let_def)
  have tok: "token (lessonPlayback ?s2) = runToken (runs ?s2 ! rid)" using t rid by simp
  let ?s3 = "updLessonButton (callerBtn (runs ?s2 ! rid))
      (\<lambda>n. n\<lparr>lb_textContent := js ''Play lesson'', lb_is_playing := False\<rparr>)
      (?s2\<lparr>lessonPlayback := (lessonPlayback ?s2)\<lparr>running := False\<rparr>\<rparr>)"
  have f: "lessonFinally rid ?s2 = stopCurrentAudio ?s3"
    using tok by (simp add: lessonFinally_def Let_def)
  have "exclusive ?s3" using e2 by simp
  then have "quiet (stopCurrentAudio ?s3)" by (rule stopCurrentAudio_quiet)
  moreover have "\<not> running (lessonPlayback (stopCurrentAudio ?s3))" by simp
  ultimately show ?thesis unfolding eq f by simp
qed

lemma onError_stale_token:
  assumes aw: "awaiting rid i s"
    and t: "token (lessonPlayback s) \<noteq> runToken (runs s ! rid)"
  shows "currentlyPlaying (onError rid i a s) = currentlyPlaying s \<and>
         playingClips (onError rid i a s) = playingClips s \<and>
         playingButtons (onError rid i a s) = playingButtons s \<and>
         lessonPlayback (onError rid i a s) = lessonPlayback s"
proof -
  from aw have rid: "rid < length (runs s)" by (simp add: awaiting_def)
  have eq: "onError rid i a s = updRun rid (\<lambda>r. r\<lparr>phase := Aborted\<rparr>) (cleanup rid i a s)"
    using aw t rid by (simp add: onError_def settleRun_def lessonFinally_def Let_def)
  have "map paused (audios (cleanup rid i a s)) = map paused (audios s)"
    unfolding cleanup_def updAudio_fields by (rule map_paused_upd) simp
  then have "playingClips (onError rid i a s) = playingClips s"
    unfolding eq by (intro playingClips_frame) simp
  moreover have "playingButtons (onError rid i a s) = playingButtons s"
    unfolding eq by (simp add: playingButtons_def cleanup_def)
  ultimately show ?thesis unfolding eq by (simp add: cleanup_def)
qed

text \<open>
  \<^bold>\<open>C6.\<close> What happens when \<^verbatim>\<open>audio.play()\<close> rejects depends on the path. In the
  manual path (the \<^verbatim>\<open>catch\<close> block of the sentence button's click handler) the clip is
  flagged \<^verbatim>\<open>__missing\<close>, \<^verbatim>\<open>stopCurrentAudio()\<close> empties the slot and nothing is playing;
  the failure goes no further: no run and no field of \<^verbatim>\<open>lessonPlayback\<close> changes. In the
  sequencer path (\<^verbatim>\<open>playOne\<close>) the \<^verbatim>\<open>catch\<close> block only detaches the two listeners of
  the call and rejects the promise: the run that awaits it is aborted without starting
  another clip, and it is the \<^verbatim>\<open>finally\<close> block of the play-lesson click handler that
  restores the idle state, and only if the run's token is still the current one:
  then \<^verbatim>\<open>running\<close> is false, the slot is empty and nothing is playing; with a stale
  token the player and \<^verbatim>\<open>lessonPlayback\<close> are left as they are. This holds in every
  reachable state.
\<close>

theorem play_failure_handling:
  assumes s: "s = exec evs initial"
  shows "(\<forall>a. a < length (audios s) \<longrightarrow>
            missing (audios (sentenceClickCatch a s) ! a) \<and>
            currentlyPlaying (sentenceClickCatch a s) = \<lparr>audio = None, btn = None\<rparr> \<and>
            playingClips (sentenceClickCatch a s) = [] \<and>
            playingButtons (sentenceClickCatch a s) = [] \<and>
            runs (sentenceClickCatch a s) = runs s \<and>
            lessonPlayback (sentenceClickCatch a s) = lessonPlayback s) \<and>
         (\<forall>rid i a. awaiting rid i s \<longrightarrow>
            phase (runs (playOneCatch rid i a s) ! rid) = Aborted \<and>
            history (playOneCatch rid i a s) = history s \<and>
            (a < length (audios s) \<longrightarrow>
               PlayOneL rid i \<notin> set (listeners (audios (playOneCatch rid i a s) ! a))) \<and>
            (token (lessonPlayback s) = runToken (runs s ! rid) \<longrightarrow>
               \<not> running (lessonPlayback (playOneCatch rid i a s)) \<and>
               currentlyPlaying (playOneCatch rid i a s) = \<lparr>audio = None, btn = None\<rparr> \<and>
               playingClips (playOneCatch rid i a s) = [] \<and>
               playingButtons (playOneCatch rid i a s) = []) \<and>
            (token (lessonPlayback s) \<noteq> runToken (runs s ! rid) \<longrightarrow>
               currentlyPlaying (playOneCatch rid i a s) = currentlyPlaying s \<and>
               playingClips (playOneCatch rid i a s) = playingClips s \<and>
               playingButtons (playOneCatch rid i a s) = playingButtons s \<and>
               lessonPlayback (playOneCatch rid i a s) = lessonPlayback s))"
proof -
  have e: "exclusive s" unfolding s by (rule exec_exclusive [OF initial_exclusive])
  have manual: "missing (audios (sentenceClickCatch a s) ! a) \<and>
      currentlyPlaying (sentenceClickCatch a s) = \<lparr>audio = None, btn = None\<rparr> \<and>
      playingClips (sentenceClickCatch a s) = [] \<and>
      playingButtons (sentenceClickCatch a s) = [] \<and>
      runs (sentenceClickCatch a s) = runs s \<and>
      lessonPlayback (sentenceClickCatch a s) = lessonPlayback s" if "a < length (audios s)" for a
    using sentenceClickCatch_flags [OF that] quiet_sessions [OF sentenceClickCatch_quiet [OF e]]
    by simp
  have seq: "phase (runs (playOneCatch rid i a s) ! rid) = Aborted \<and>
      history (playOneCatch rid i a s) = history s \<and>
      (a < length (audios s) \<longrightarrow>
         PlayOneL rid i \<notin> set (listeners (audios (playOneCatch rid i a s) ! a))) \<and>
      (token (lessonPlayback s) = runToken (runs s ! rid) \<longrightarrow>
         \<not> running (lessonPlayback (playOneCatch rid i a s)) \<and>
         currentlyPlaying (playOneCatch rid i a s) = \<lparr>audio = None, btn = None\<rparr> \<and>
         playingClips (playOneCatch rid i a s) = [] \<and>
         playingButtons (playOneCatch rid i a s) = []) \<and>
      (token (lessonPlayback s) \<noteq> runToken (runs s ! rid) \<longrightarrow>
         currentlyPlaying (playOneCatch rid i a s) = currentlyPlaying s \<and>
         playingClips (playOneCatch rid i a s) = playingClips s \<and>
         playingButtons (playOneCatch rid i a s) = playingButtons s \<and>
         lessonPlayback (playOneCatch rid i a s) = lessonPlayback s)"
    if aw: "awaiting rid i s" for rid i a
  proof -
    from aw have rid: "rid < length (runs s)" by (simp add: awaiting_def)
    have "phase (runs (onError rid i a s) ! rid) = Aborted"
      using aw rid by (simp add: onError_seq)
    moreover have "history (onError rid i a s) = history s" by (simp add: onError_seq)
    ultimately show ?thesis
      using onError_detaches [OF aw, of a] onError_current_token [OF e aw, of a]
        onError_stale_token [OF aw, of a]
      by (auto simp: playOneCatch_eq quiet_def)
  qed
  from manual seq show ?thesis by blast
qed

theorem play_failure_handling_witness:
  "awaiting 0 0 (exec [UIChange [Some (js ''a'')], ProbeResolved 0 0 True,
       LessonProbesResolved 0 [True], ClickLesson 0 False] initial) \<and>
   phase (runs (playOneCatch 0 0 0 (exec [UIChange [Some (js ''a'')], ProbeResolved 0 0 True,
       LessonProbesResolved 0 [True], ClickLesson 0 False] initial)) ! 0) = Aborted \<and>
   0 < length (audios (exec [UIChange [Some (js ''a'')], ProbeResolved 0 0 True,
       LessonProbesResolved 0 [True], ClickLesson 0 False] initial)) \<and>
   missing (audios (sentenceClickCatch 0 (exec [UIChange [Some (js ''a'')],
       ProbeResolved 0 0 True, LessonProbesResolved 0 [True], ClickLesson 0 False] initial)) ! 0)"
proof -
  let ?evs = "[UIChange [Some (js ''a'')], ProbeResolved 0 0 True,
       LessonProbesResolved 0 [True], ClickLesson 0 False]"
  have a: "awaiting 0 0 (exec ?evs initial)" and l: "0 < length (audios (exec ?evs initial))"
    by (simp_all add: player_eval js_def)
  from play_failure_handling [OF refl, of ?evs] a l show ?thesis by blast
qed

theorem sequencer_play_failure_counterexample:
  "playPromises (exec [UIChange [Some (js ''a'')], ProbeResolved 0 0 True,
       LessonProbesResolved 0 [True], ClickLesson 0 False] initial) = [SeqPlay 0 0 0] \<and>
   \<not> missing (audios (step (PlayRejected 0) (exec [UIChange [Some (js ''a'')],
       ProbeResolved 0 0 True, LessonProbesResolved 0 [True], ClickLesson 0 False] initial)) ! 0) \<and>
   phase (runs (step (PlayRejected 0) (exec [UIChange [Some (js ''a'')],
       ProbeResolved 0 0 True, LessonProbesResolved 0 [True], ClickLesson 0 False] initial)) ! 0)
     = Aborted"
  by (simp add: player_eval js_def)

subsection \<open>The gating of the play-lesson control\<close>

lemma urlsOk_iff:
  "urlsOk s \<longleftrightarrow>
     (\<forall>r\<in>set (runs s). \<forall>u\<in>set (urls r). \<not> falsy u) \<and>
     (\<forall>b\<in>set (lessonButtons s). lb_pass b < length (passes s) \<and>
        (\<forall>u\<in>set (sentenceUrls (passes s ! lb_pass b)). \<not> falsy u))"
  by (auto simp: urlsOk_def list_all_iff list_ex_iff)

lemma urlsOk_frame:
  assumes ok: "urlsOk s"
    and r: "map urls (runs s') = map urls (runs s)"
    and b: "map lb_pass (lessonButtons s') = map lb_pass (lessonButtons s)"
    and p: "map sentenceUrls (passes s') = map sentenceUrls (passes s)"
  shows "urlsOk s'"
proof -
  have "set (map urls (runs s')) = set (map urls (runs s))" using r by simp
  then have 1: "urls ` set (runs s') = urls ` set (runs s)" by simp
  have "set (map lb_pass (lessonButtons s')) = set (map lb_pass (lessonButtons s))"
    using b by simp
  then have 2: "lb_pass ` set (lessonButtons s') = lb_pass ` set (lessonButtons s)" by simp
  have l: "length (passes s') = length (passes s)" using p by (metis length_map)
  have 3: "sentenceUrls (passes s' ! q) = sentenceUrls (passes s ! q)"
    if "q < length (passes s)" for q
    using that l p by (metis nth_map)
  have a: "\<forall>us\<in>urls ` set (runs s). \<forall>u\<in>set us. \<not> falsy u"
    using ok by (auto simp: urlsOk_iff)
  have c: "\<forall>q\<in>lb_pass ` set (lessonButtons s). q < length (passes s) \<and>
      (\<forall>u\<in>set (sentenceUrls (passes s ! q)). \<not> falsy u)"
    using ok by (auto simp: urlsOk_iff)
  have "\<forall>us\<in>urls ` set (runs s'). \<forall>u\<in>set us. \<not> falsy u" using a 1 by simp
  moreover have "\<forall>q\<in>lb_pass ` set (lessonButtons s'). q < length (passes s') \<and>
      (\<forall>u\<in>set (sentenceUrls (passes s' ! q)). \<not> falsy u)"
    using c 2 3 l by auto
  ultimately show ?thesis unfolding urlsOk_iff by blast
qed

lemma offerLesson_gate:
  "list_ex falsy (sentenceUrls (passes s ! p)) \<Longrightarrow> offerLesson p results s = s"
  "list_ex (\<lambda>x. \<not> x) results \<Longrightarrow> offerLesson p results s = s"
  by (simp_all add: offerLesson_def)

lemma offerLesson_urlsOk: "urlsOk s \<Longrightarrow> urlsOk (offerLesson p rs s)"
  by (auto simp: offerLesson_def Let_def urlsOk_iff list_ex_iff)

lemma render_urlsOk: "urlsOk s \<Longrightarrow> urlsOk (render us s)"
  by (auto simp: urlsOk_iff nth_append)

lemma lessonClick_urlsOk:
  assumes ok: "urlsOk s" and b: "b < length (lessonButtons s)"
  shows "urlsOk (lessonClick b (lb_pass (lessonButtons s ! b)) st s)"
proof -
  let ?p = "lb_pass (lessonButtons s ! b)"
  let ?s' = "lessonClick b ?p st s"
  from ok b have us: "\<forall>u\<in>set (sentenceUrls (passes s ! ?p)). \<not> falsy u"
    by (auto simp: urlsOk_iff)
  have 1: "\<forall>r\<in>set (runs ?s'). \<forall>u\<in>set (urls r). \<not> falsy u"
    using ok us by (auto simp: urlsOk_iff lessonClick_seq)
  have "lb_pass ` set (lessonButtons ?s') = lb_pass ` set (lessonButtons s)"
    using lessonClick_seq(8) [of b ?p st s] by (metis set_map)
  then have 2: "\<forall>q\<in>lb_pass ` set (lessonButtons ?s'). q < length (passes ?s') \<and>
      (\<forall>u\<in>set (sentenceUrls (passes ?s' ! q)). \<not> falsy u)"
    using ok by (auto simp: urlsOk_iff lessonClick_seq)
  from 1 2 show ?thesis unfolding urlsOk_iff by blast
qed

lemma step_urlsOk: "urlsOk s \<Longrightarrow> urlsOk (step e s)"
proof (rule step_preserves [where P = urlsOk])
  fix s us assume "urlsOk s"
  then have "urlsOk (stopLessonPlayback s)" by (rule urlsOk_frame) simp_all
  then show "urlsOk (render us (stopLessonPlayback s))" by (rule render_urlsOk)
next
  fix s p rs assume "urlsOk s"
  then show "urlsOk (offerLesson p rs s)" by (rule offerLesson_urlsOk)
next
  fix s b st assume "urlsOk s" "b < length (lessonButtons s)"
  then show "urlsOk (lessonClick b (lb_pass (lessonButtons s ! b)) st s)"
    by (rule lessonClick_urlsOk)
next
  fix s b a st assume "urlsOk s"
  then show "urlsOk (sentenceClick b a st s)"
    by (rule urlsOk_frame) (simp_all add: sentenceClick_seq)
next
  fix s rid i a assume "urlsOk s"
  then show "urlsOk (onEnded rid i a s)"
    by (rule urlsOk_frame) (simp_all add: runs_meta_onEnded onEnded_seq(5,8))
next
  fix s rid i a assume "urlsOk s"
  then show "urlsOk (onError rid i a s)"
    by (rule urlsOk_frame) (simp_all add: runs_meta_onError onError_seq(5,8))
next
  fix s rid ms st assume "urlsOk s"
  then show "urlsOk (afterSleep rid ms st s)"
    by (rule urlsOk_frame) (simp_all add: map_urls_upd)
qed (erule urlsOk_frame; simp)+

lemma initial_urlsOk: "urlsOk initial"
  by (simp add: urlsOk_def initial_def)

lemma exec_urlsOk: "urlsOk s \<Longrightarrow> urlsOk (exec evs s)"
  by (rule exec_preserves [where P = urlsOk]) (rule step_urlsOk)

text \<open>
  \<^bold>\<open>C5.\<close> The rule "every line must have audio" is enforced by the caller only. In
  every reachable state, \<^verbatim>\<open>render\<close> offers no play-lesson control for a pass in which
  some line has no address or some existence probe failed (the state is left as it is);
  hence every play-lesson control belongs to a pass whose addresses are all resolved,
  and every run the sequencer has been started on has only resolved addresses.
  \<^verbatim>\<open>playLessonInOrder\<close> itself validates nothing.
\<close>

theorem lesson_gating_is_in_render:
  assumes s: "s = exec evs initial"
  shows "(\<forall>p results. list_ex falsy (sentenceUrls (passes s ! p)) \<longrightarrow>
            offerLesson p results s = s) \<and>
         (\<forall>p results. list_ex (\<lambda>x. \<not> x) results \<longrightarrow> offerLesson p results s = s) \<and>
         (\<forall>b\<in>set (lessonButtons s). lb_pass b < length (passes s) \<and>
            (\<forall>u\<in>set (sentenceUrls (passes s ! lb_pass b)). u \<noteq> None \<and> u \<noteq> Some [])) \<and>
         (\<forall>r\<in>set (runs s). \<forall>u\<in>set (urls r). u \<noteq> None \<and> u \<noteq> Some [])"
proof -
  have "urlsOk s" unfolding s by (rule exec_urlsOk [OF initial_urlsOk])
  then show ?thesis by (auto simp: urlsOk_iff falsy_def offerLesson_gate)
qed

theorem lesson_gating_is_in_render_witness:
  "list_ex falsy (sentenceUrls (passes (exec [UIChange [Some (js ''a''), None]] initial) ! 0)) \<and>
   lessonButtons (step (LessonProbesResolved 0 [True, True])
      (exec [UIChange [Some (js ''a''), None]] initial)) = [] \<and>
   step (ClickLesson 0 True) (step (LessonProbesResolved 0 [True, True])
      (exec [UIChange [Some (js ''a''), None]] initial)) =
     exec [UIChange [Some (js ''a''), None]] initial"
proof -
  define s where "s = exec [UIChange [Some (js ''a''), None]] initial"
  have f: "list_ex falsy (sentenceUrls (passes s ! 0))" and l: "lessonButtons s = []"
    unfolding s_def by (simp_all add: player_eval js_def)
  have "\<forall>p results. list_ex falsy (sentenceUrls (passes s ! p)) \<longrightarrow>
          offerLesson p results s = s"
    using lesson_gating_is_in_render [OF s_def] by (rule conjunct1)
  from this [rule_format, OF f] have o: "offerLesson 0 [True, True] s = s" .
  have a: "step (LessonProbesResolved 0 [True, True]) s = s"
    by (simp only: step_def event.case o)
  have b: "step (ClickLesson 0 True) s = s"
    by (simp add: step_def l)
  show ?thesis unfolding s_def [symmetric] a b using f l by (intro conjI refl)
qed

text \<open>
  Called directly with a list that holds \<^verbatim>\<open>null\<close>, while a sentence clip is playing,
  \<^verbatim>\<open>playLessonInOrder\<close> stops that clip, creates and caches an audio element for
  \<^verbatim>\<open>null\<close>, installs it in the slot and calls \<^verbatim>\<open>play()\<close> on it, whether or not the
  browser then starts it.
\<close>

theorem sequencer_does_not_validate_counterexample:
  "playingClips (exec [UIChange [Some (js ''a'')], ProbeResolved 0 0 True, ClickSentence 0 True]
      initial) = [0] \<and>
   token (lessonPlayback (exec [UIChange [Some (js ''a'')], ProbeResolved 0 0 True,
      ClickSentence 0 True] initial)) = 1 \<and>
   playingClips (playLessonInOrder [None] 0 1 0 False
      (exec [UIChange [Some (js ''a'')], ProbeResolved 0 0 True, ClickSentence 0 True]
         initial)) = [] \<and>
   audioCache (playLessonInOrder [None] 0 1 0 False
      (exec [UIChange [Some (js ''a'')], ProbeResolved 0 0 True, ClickSentence 0 True]
         initial)) = [(Some (js ''a''), 0), (None, 1)] \<and>
   currentlyPlaying (playLessonInOrder [None] 0 1 0 False
      (exec [UIChange [Some (js ''a'')], ProbeResolved 0 0 True, ClickSentence 0 True]
         initial)) = \<lparr>audio = Some 1, btn = Some 0\<rparr> \<and>
   playPromises (playLessonInOrder [None] 0 1 0 False
      (exec [UIChange [Some (js ''a'')], ProbeResolved 0 0 True, ClickSentence 0 True]
         initial)) = [ManualPlay 0, SeqPlay 0 0 1]"
  by (simp add: player_eval js_def)

section \<open>Properties of the audio resolver\<close>

lemma map_of_mapSet: "map_of (mapSet k v m) k' = (if k' = k then Some v else map_of m k')"
  by (induction m) auto

lemma audioExists_resume_value:
  "fst (audioExists_resume url out r) \<longleftrightarrow> out = Response True"
  by (cases out) (auto simp: audioExists_resume_def)

lemma audioExists_resume_probes:
  "probes (snd (audioExists_resume url out r)) = probes r"
  by (cases out) (simp_all add: audioExists_resume_def)

text \<open>Once a call for an address has settled, a later call for it returns the value
  that call returned, success or failure, and sends nothing; other addresses are not
  affected.\<close>

lemma audioExists_memoised:
  "audioExists_call url (snd (audioExists_resume url out r)) =
     (Some (fst (audioExists_resume url out r)), snd (audioExists_resume url out r))"
  by (cases out) (simp_all add: audioExists_call_def audioExists_resume_def map_of_mapSet)

lemma audioExists_other_address:
  "url' \<noteq> url \<Longrightarrow>
     map_of (audioExistsCache (snd (audioExists_resume url out r))) url' =
       map_of (audioExistsCache r) url'"
  by (cases out) (simp_all add: audioExists_resume_def map_of_mapSet)

lemma audioExists_call_hit:
  "map_of (audioExistsCache r) url = Some v \<Longrightarrow> audioExists_call url r = (Some v, r)"
  by (simp add: audioExists_call_def)

lemma audioExists_call_miss:
  "map_of (audioExistsCache r) url = None \<Longrightarrow>
     audioExists_call url r = (None, r\<lparr>probes := probes r @ [url]\<rparr>)"
  by (simp add: audioExists_call_def)

text \<open>
  \<^bold>\<open>C8.\<close> \<^verbatim>\<open>audioExists\<close> does not keep to one probe per address. The first pass of
  \<^verbatim>\<open>render\<close> over a lesson whose only line has the address of \<^verbatim>\<open>Hello.\<close> calls
  \<^verbatim>\<open>audioExists\<close> twice for that address before any request settles: both calls miss
  the cache and two \<^verbatim>\<open>HEAD\<close> requests are sent. When the two requests settle
  differently, the second overwrites what the first has cached: after a success the
  cache holds \<^verbatim>\<open>true\<close>, after the failure of the other request it holds \<^verbatim>\<open>false\<close>.
\<close>

theorem audioExists_probes_twice:
  "probes (renderProbes [Some helloUrl] resolver0) = [helloUrl, helloUrl] \<and>
   fst (audioExists_call helloUrl resolver0) = None \<and>
   fst (audioExists_call helloUrl (snd (audioExists_call helloUrl resolver0))) = None \<and>
   probes (snd (audioExists_call helloUrl (snd (audioExists_call helloUrl resolver0)))) =
     [helloUrl, helloUrl] \<and>
   map_of (audioExistsCache (snd (audioExists_resume helloUrl (Response True)
     (renderProbes [Some helloUrl] resolver0)))) helloUrl = Some True \<and>
   map_of (audioExistsCache (snd (audioExists_resume helloUrl NetworkError
     (snd (audioExists_resume helloUrl (Response True)
        (renderProbes [Some helloUrl] resolver0)))))) helloUrl = Some False \<and>
   probes (snd (audioExists_resume helloUrl NetworkError
     (snd (audioExists_resume helloUrl (Response True)
        (renderProbes [Some helloUrl] resolver0))))) = [helloUrl, helloUrl]"
  by (simp add: renderProbes_def audioExists_call_def audioExists_resume_def resolver0_def
      falsy_def helloUrl_def js_def)
end
